theory Spec2Isabelle
  imports Main "HOL-Library.Word"
begin

section \<open>Constants and machine integers\<close>

text \<open>
  \<^verbatim>\<open>unsigned long long\<close> is a 64-bit word: addition wraps, \<open><\<close> and \<open>min\<close> compare the
  unsigned readings. \<^verbatim>\<open>long long\<close> (the type of \<^verbatim>\<open>Object::GetSize()\<close>) is the same bit
  pattern read with \<open>sint\<close>; the \<^verbatim>\<open>static_cast<unsigned long long>\<close> of the source keeps
  the bits.
\<close>

type_synonym u64 = "64 word"

definition ThreadCount :: nat where
  "ThreadCount = 32"

definition ReadChunkSize :: u64 where
  "ReadChunkSize = 4 * 1024 * 1024 * 1024"


section \<open>ObjectList: the work queue\<close>

text \<open>
  Every member function of \<^verbatim>\<open>ObjectList\<close> holds \<^verbatim>\<open>mutex_\<close> for its whole body, so each
  call is one atomic transition of the queue state. A call is modelled as a function
  from the state before to the returned value and the state after.
  The parameter \<^verbatim>\<open>range\<close> of the source is written \<open>rng\<close>, \<open>range\<close> being a constant of
  HOL.
\<close>

type_synonym ReadKey = "string \<times> string"

record ObjectList =
  keylist :: "ReadKey list"
  end_marker :: bool

definition ObjectList_new :: ObjectList where
  "ObjectList_new = \<lparr>keylist = [], end_marker = False\<rparr>"

definition push_back :: "string \<Rightarrow> string \<Rightarrow> ObjectList \<Rightarrow> ObjectList" where
  "push_back key rng q = q\<lparr>keylist := keylist q @ [(key, rng)]\<rparr>"

definition Pop :: "ObjectList \<Rightarrow> ReadKey option \<times> ObjectList" where
  "Pop q =
     (case keylist q of
        [] \<Rightarrow> (None, q)
      | result # rest \<Rightarrow> (Some result, q\<lparr>keylist := rest\<rparr>))"

definition SetEnd :: "ObjectList \<Rightarrow> ObjectList" where
  "SetEnd q = q\<lparr>end_marker := True\<rparr>"

definition IsEnd :: "ObjectList \<Rightarrow> bool \<times> ObjectList" where
  "IsEnd q = (end_marker q, q)"

text \<open>Sequences of calls on one queue, in the order in which they take the mutex.\<close>

datatype queue_call = CallPush string string | CallPop | CallSetEnd | CallIsEnd

datatype queue_ret = RetVoid | RetPop "ReadKey option" | RetIsEnd bool

fun call :: "queue_call \<Rightarrow> ObjectList \<Rightarrow> queue_ret \<times> ObjectList" where
  "call (CallPush key rng) q = (RetVoid, push_back key rng q)"
| "call CallPop q = (case Pop q of (r, q') \<Rightarrow> (RetPop r, q'))"
| "call CallSetEnd q = (RetVoid, SetEnd q)"
| "call CallIsEnd q = (case IsEnd q of (b, q') \<Rightarrow> (RetIsEnd b, q'))"

fun calls :: "queue_call list \<Rightarrow> ObjectList \<Rightarrow> queue_ret list \<times> ObjectList" where
  "calls [] q = ([], q)"
| "calls (c # cs) q =
     (case call c q of (r, q') \<Rightarrow>
        (case calls cs q' of (rs, q'') \<Rightarrow> (r # rs, q'')))"

text \<open>The tasks handed out by the pops of a run, and the tasks pushed by its pushes.\<close>

fun delivered :: "queue_ret list \<Rightarrow> ReadKey list" where
  "delivered [] = []"
| "delivered (RetPop (Some k) # rs) = k # delivered rs"
| "delivered (r # rs) = delivered rs"

fun pushed :: "queue_call list \<Rightarrow> ReadKey list" where
  "pushed [] = []"
| "pushed (CallPush key rng # cs) = (key, rng) # pushed cs"
| "pushed (c # cs) = pushed cs"

fun is_pop :: "queue_call \<Rightarrow> bool" where
  "is_pop CallPop = True"
| "is_pop c = False"

fun is_end_answers :: "queue_ret list \<Rightarrow> bool list" where
  "is_end_answers [] = []"
| "is_end_answers (RetIsEnd b # rs) = b # is_end_answers rs"
| "is_end_answers (r # rs) = is_end_answers rs"


section \<open>ConstructByteRange\<close>

text \<open>
  \<^verbatim>\<open>Aws::Utils::StringUtils::to_string\<close> belongs to the SDK, not to this repository. On an
  \<^verbatim>\<open>unsigned long long\<close> it prints the decimal digits of the value (the comment of the
  source gives \<^verbatim>\<open>bytes=0-5\<close> as an example of the result), which is what \<open>to_string\<close>
  computes. Both arguments of \<^verbatim>\<open>ConstructByteRange\<close> are \<^verbatim>\<open>unsigned long long\<close> at its one
  call.
\<close>

definition digit :: "nat \<Rightarrow> char" where
  "digit d = ''0123456789'' ! d"

fun decimal :: "nat \<Rightarrow> string" where
  "decimal n = (if n < 10 then [digit n] else decimal (n div 10) @ [digit (n mod 10)])"

declare decimal.simps [simp del]

definition to_string :: "u64 \<Rightarrow> string" where
  "to_string v = decimal (unat v)"

definition ConstructByteRange :: "u64 \<Rightarrow> u64 \<Rightarrow> string" where
  "ConstructByteRange lower upper = ''bytes='' @ to_string lower @ ''-'' @ to_string upper"


section \<open>The chunking loop of the enumerator\<close>

text \<open>
  \<^verbatim>\<open>
  auto offset = 0ULL;
  while (offset < objsize) {
      const auto upper_bound = std::min(objsize, offset + ReadChunkSize);
      objects.push_back(s3_object.GetKey(), ConstructByteRange(offset, upper_bound));
      offset += ReadChunkSize;
  }
  \<close>
  The loop is kept generic in what is done with each pair \<open>(offset, upper_bound)\<close> and in
  the chunk size, so that the same definition gives the sequence of pairs
  (\<open>chunk_ranges\<close>) and the pushes of the enumerator (\<open>push_object\<close> below, with
  \<open>ReadChunkSize\<close>). Both sums wrap at \<open>2 ^ 64\<close>; a loop that never ends has the value
  \<open>None\<close>.
\<close>

partial_function (option) chunk_loop ::
  "(u64 \<Rightarrow> u64 \<Rightarrow> 's \<Rightarrow> 's) \<Rightarrow> u64 \<Rightarrow> u64 \<Rightarrow> u64 \<Rightarrow> 's \<Rightarrow> 's option" where
  "chunk_loop body chunk objsize offset st =
     (if offset < objsize
      then (let upper_bound = min objsize (offset + chunk)
            in chunk_loop body chunk objsize (offset + chunk) (body offset upper_bound st))
      else Some st)"

declare chunk_loop.simps [code]

definition chunk_ranges :: "u64 \<Rightarrow> u64 \<Rightarrow> (u64 \<times> u64) list option" where
  "chunk_ranges chunk objsize =
     chunk_loop (\<lambda>offset upper_bound acc. acc @ [(offset, upper_bound)]) chunk objsize 0 []"

text \<open>
  The RangePartitioner of the specification (section 4.2), as a total function on
  natural numbers: the reference that the loop of the source is compared with.
\<close>

function spec_partition :: "nat \<Rightarrow> nat \<Rightarrow> nat \<Rightarrow> (nat \<times> nat) list" where
  "spec_partition chunk sz lower =
     (if lower < sz \<and> 0 < chunk
      then (lower, min sz (lower + chunk)) # spec_partition chunk sz (lower + chunk)
      else [])"
  by pat_completeness auto
termination
  by (relation "measure (\<lambda>(chunk, sz, lower). sz - lower)") auto

declare spec_partition.simps [simp del]

definition to_words :: "nat \<times> nat \<Rightarrow> u64 \<times> u64" where
  "to_words r = (of_nat (fst r), of_nat (snd r))"


section \<open>The storage service, as the program sees it\<close>

text \<open>
  The S3 client is an external collaborator. Its two calls are parameters of the model:
  a listing call, from the bucket and the continuation token of the request (\<open>None\<close>
  while no token has been set) to an outcome, and a ranged GET, from bucket, key and
  range header to an outcome. An outcome of the SDK carries a result and an error side
  by side, whichever way \<^verbatim>\<open>IsSuccess()\<close> answers, and the listing loop reads the result
  of a failed outcome too, so \<open>ListObjectsV2Outcome\<close> keeps both fields.
\<close>

record AWSError =
  ExceptionName :: string
  Message :: string

record S3Object =
  Key :: string
  Size :: u64

record ListObjectsV2Result =
  Contents :: "S3Object list"
  NextContinuationToken :: string
  IsTruncated :: bool

record ListObjectsV2Outcome =
  IsSuccess :: bool
  Result :: ListObjectsV2Result
  Error :: AWSError

datatype GetObjectOutcome = GetObjectSuccess | GetObjectError AWSError

record S3Client =
  ListObjectsV2 :: "string \<Rightarrow> string option \<Rightarrow> ListObjectsV2Outcome"
  GetObject :: "string \<Rightarrow> string \<Rightarrow> string \<Rightarrow> GetObjectOutcome"


section \<open>RetrieveObjectRange and the Retriever thread\<close>

text \<open>
  Standard output is the list of the lines written so far; every statement of the
  source that ends in \<^verbatim>\<open>std::endl\<close> appends one line (the usage message, which has
  four \<^verbatim>\<open>std::endl\<close>, appends four).
  A line is appended whole: how the characters of lines
  written by different threads at the same time mix on the terminal is not modelled.
\<close>

definition RetrieveObjectRange ::
  "S3Client \<Rightarrow> string \<Rightarrow> string \<Rightarrow> string \<Rightarrow> string list \<Rightarrow> string list" where
  "RetrieveObjectRange s3_client bucket_name key rng out =
     (case GetObject s3_client bucket_name key rng of
        GetObjectSuccess \<Rightarrow> out @ [''Read '' @ key @ '' '' @ rng]
      | GetObjectError e \<Rightarrow>
          out @ [''GetObject error: '' @ ExceptionName e @ '' '' @ Message e])"

text \<open>
  \<^verbatim>\<open>
  while (true) {
      while (const auto keyrange = objects.Pop())
          RetrieveObjectRange(s3_client, bucket_name, keyrange->first, keyrange->second);
      if (objects.IsEnd()) return;
      std::this_thread::sleep_for(std::chrono::milliseconds(10));
  }
  \<close>
  A thread is where its control stands: about to call \<open>Pop\<close>, about to retrieve the
  task it holds, about to call \<open>IsEnd\<close>, about to sleep, or returned. One step runs the
  thread to its next such point. In the words of the specification, \<open>AtPop\<close> and
  \<open>AtRetrieve\<close> are Draining, \<open>AtIsEnd\<close> and \<open>AtSleep\<close> are Idle-wait, \<open>Exited\<close> is Done.
  Each thread also records what its calls on the queue returned.
\<close>

datatype reader_pc = AtPop | AtRetrieve ReadKey | AtIsEnd | AtSleep | Exited

datatype observation = PopGave ReadKey | PopEmpty | IsEndGave bool

record reader =
  pc :: reader_pc
  seen :: "observation list"

definition reader_start :: reader where
  "reader_start = \<lparr>pc = AtPop, seen = []\<rparr>"

definition Retriever_step ::
  "S3Client \<Rightarrow> string \<Rightarrow> reader \<Rightarrow> ObjectList \<Rightarrow> string list
     \<Rightarrow> reader \<times> ObjectList \<times> string list" where
  "Retriever_step s3_client bucket_name t q out =
     (case pc t of
        AtPop \<Rightarrow>
          (case Pop q of
             (Some keyrange, q') \<Rightarrow>
               (t\<lparr>pc := AtRetrieve keyrange, seen := seen t @ [PopGave keyrange]\<rparr>, q', out)
           | (None, q') \<Rightarrow>
               (t\<lparr>pc := AtIsEnd, seen := seen t @ [PopEmpty]\<rparr>, q', out))
      | AtRetrieve keyrange \<Rightarrow>
          (t\<lparr>pc := AtPop\<rparr>, q,
           RetrieveObjectRange s3_client bucket_name (fst keyrange) (snd keyrange) out)
      | AtIsEnd \<Rightarrow>
          (case IsEnd q of
             (b, q') \<Rightarrow>
               (t\<lparr>pc := (if b then Exited else AtSleep), seen := seen t @ [IsEndGave b]\<rparr>,
                q', out))
      | AtSleep \<Rightarrow> (t\<lparr>pc := AtPop\<rparr>, q, out)
      | Exited \<Rightarrow> (t, q, out))"


section \<open>The process: main thread, reader threads, and their interleaving\<close>

text \<open>
  The state of the process: the queue, standard output, the reader threads, the
  continuation tokens sent to the listing service so far, and the schedule. The
  schedule says how the reader threads run in between the actions of the main thread:
  each time the main thread has acted on the queue or on standard output, the next
  entry of the schedule (a list of thread indices) is taken and those threads take
  one step each, in that order. Every interleaving of the main thread with the readers
  is some schedule.
\<close>

record world =
  objects :: ObjectList
  cout :: "string list"
  reader_threads :: "reader list"
  listed :: "string option list"
  sched :: "nat list list"

definition step_thread :: "S3Client \<Rightarrow> string \<Rightarrow> nat \<Rightarrow> world \<Rightarrow> world" where
  "step_thread s3_client bucket_name i w =
     (if i < length (reader_threads w)
      then (case Retriever_step s3_client bucket_name (reader_threads w ! i) (objects w) (cout w) of
              (t', q', out') \<Rightarrow>
                w\<lparr>objects := q', cout := out',
                  reader_threads := (reader_threads w)[i := t']\<rparr>)
      else w)"

definition run_threads :: "S3Client \<Rightarrow> string \<Rightarrow> nat list \<Rightarrow> world \<Rightarrow> world" where
  "run_threads s3_client bucket_name burst w = fold (step_thread s3_client bucket_name) burst w"

definition yield :: "S3Client \<Rightarrow> string \<Rightarrow> world \<Rightarrow> world" where
  "yield s3_client bucket_name w =
     (case sched w of
        [] \<Rightarrow> w
      | burst # rest \<Rightarrow> run_threads s3_client bucket_name burst (w\<lparr>sched := rest\<rparr>))"

text \<open>The actions of the main thread, each followed by the readers' turn.\<close>

definition main_push_back :: "S3Client \<Rightarrow> string \<Rightarrow> string \<Rightarrow> string \<Rightarrow> world \<Rightarrow> world" where
  "main_push_back s3_client bucket_name key rng w =
     yield s3_client bucket_name (w\<lparr>objects := push_back key rng (objects w)\<rparr>)"

definition main_cout :: "S3Client \<Rightarrow> string \<Rightarrow> string \<Rightarrow> world \<Rightarrow> world" where
  "main_cout s3_client bucket_name line w =
     yield s3_client bucket_name (w\<lparr>cout := cout w @ [line]\<rparr>)"

definition main_SetEnd :: "S3Client \<Rightarrow> string \<Rightarrow> world \<Rightarrow> world" where
  "main_SetEnd s3_client bucket_name w =
     yield s3_client bucket_name (w\<lparr>objects := SetEnd (objects w)\<rparr>)"

fun start_threads :: "S3Client \<Rightarrow> string \<Rightarrow> nat \<Rightarrow> world \<Rightarrow> world" where
  "start_threads s3_client bucket_name 0 w = w"
| "start_threads s3_client bucket_name (Suc n) w =
     start_threads s3_client bucket_name n
       (yield s3_client bucket_name (w\<lparr>reader_threads := reader_threads w @ [reader_start]\<rparr>))"

text \<open>
  The body of the \<^verbatim>\<open>for\<close> loop over the listed objects: the chunking loop, pushing
  one task per chunk. \<open>None\<close> when the chunking loop does not end.
\<close>

definition push_object :: "S3Client \<Rightarrow> string \<Rightarrow> S3Object \<Rightarrow> world \<Rightarrow> world option" where
  "push_object s3_client bucket_name s3_object w =
     chunk_loop
       (\<lambda>offset upper_bound.
          main_push_back s3_client bucket_name (Key s3_object)
            (ConstructByteRange offset upper_bound))
       ReadChunkSize (Size s3_object) 0 w"

fun push_objects :: "S3Client \<Rightarrow> string \<Rightarrow> S3Object list \<Rightarrow> world \<Rightarrow> world option" where
  "push_objects s3_client bucket_name [] w = Some w"
| "push_objects s3_client bucket_name (s3_object # object_list) w =
     (case push_object s3_client bucket_name s3_object w of
        None \<Rightarrow> None
      | Some w' \<Rightarrow> push_objects s3_client bucket_name object_list w')"

text \<open>The \<^verbatim>\<open>if (list_objects_outcome.IsSuccess()) ... else ...\<close> of one page.\<close>

definition list_page ::
  "S3Client \<Rightarrow> string \<Rightarrow> ListObjectsV2Outcome \<Rightarrow> world \<Rightarrow> world option" where
  "list_page s3_client bucket_name list_objects_outcome w =
     (if IsSuccess list_objects_outcome
      then push_objects s3_client bucket_name (Contents (Result list_objects_outcome)) w
      else Some (main_cout s3_client bucket_name
                   (''ListObjects error: '' @ ExceptionName (Error list_objects_outcome)
                      @ '' '' @ Message (Error list_objects_outcome)) w))"

text \<open>
  The \<^verbatim>\<open>do ... while (list_objects_outcome.GetResult().GetIsTruncated())\<close> loop. The
  argument \<open>token\<close> is the continuation token of \<^verbatim>\<open>objects_request\<close>; after every page it
  is set from the result of the outcome, whether the page succeeded or not.
\<close>

partial_function (option) list_loop ::
  "S3Client \<Rightarrow> string \<Rightarrow> string option \<Rightarrow> world \<Rightarrow> world option" where
  "list_loop s3_client bucket_name token w =
     (let list_objects_outcome = ListObjectsV2 s3_client bucket_name token;
          w1 = yield s3_client bucket_name (w\<lparr>listed := listed w @ [token]\<rparr>)
      in case list_page s3_client bucket_name list_objects_outcome w1 of
           None \<Rightarrow> None
         | Some w2 \<Rightarrow>
             if IsTruncated (Result list_objects_outcome)
             then list_loop s3_client bucket_name
                    (Some (NextContinuationToken (Result list_objects_outcome))) w2
             else Some w2)"

declare list_loop.simps [code]

text \<open>
  \<^verbatim>\<open>t.join()\<close> returns once thread \<open>t\<close> has returned. While the main thread is blocked
  there the readers go on as the schedule says; when the schedule is used up every
  thread is given one step in turn, again and again.
\<close>

definition wait :: "S3Client \<Rightarrow> string \<Rightarrow> world \<Rightarrow> world" where
  "wait s3_client bucket_name w =
     (case sched w of
        [] \<Rightarrow> run_threads s3_client bucket_name [0 ..< length (reader_threads w)] w
      | burst # rest \<Rightarrow> run_threads s3_client bucket_name burst (w\<lparr>sched := rest\<rparr>))"

partial_function (option) join :: "S3Client \<Rightarrow> string \<Rightarrow> nat \<Rightarrow> world \<Rightarrow> world option" where
  "join s3_client bucket_name i w =
     (if pc (reader_threads w ! i) = Exited then Some w
      else join s3_client bucket_name i (wait s3_client bucket_name w))"

declare join.simps [code]

fun join_all :: "S3Client \<Rightarrow> string \<Rightarrow> nat list \<Rightarrow> world \<Rightarrow> world option" where
  "join_all s3_client bucket_name [] w = Some w"
| "join_all s3_client bucket_name (i # rest) w =
     (case join s3_client bucket_name i w of
        None \<Rightarrow> None
      | Some w' \<Rightarrow> join_all s3_client bucket_name rest w')"

text \<open>
  \<open>main\<close>, from the program name \<^verbatim>\<open>argv[0]\<close> and the arguments after it (so \<^verbatim>\<open>argc\<close> is
  one more than their number). The first parameter gives the behaviour of the service
  behind each endpoint address, the second the schedule of the run. The result is the
  exit status with the final state, or \<open>None\<close> when the process never exits.
  \<open>main_listing\<close> is the part from the first line printed to the end of the listing
  loop; \<open>main\<close> checks the arguments, runs it, sets the terminal flag and joins.
\<close>

definition world_start :: "nat list list \<Rightarrow> world" where
  "world_start schedule =
     \<lparr>objects = ObjectList_new, cout = [], reader_threads = [], listed = [],
      sched = schedule\<rparr>"

definition usage :: "string \<Rightarrow> string list" where
  "usage argv0 =
     ['''',
      ''To run this example, supply the name of a bucket to list!'',
      ''Ex: '' @ argv0 @ '' <endpoint> <bucket-name>'',
      '''']"

definition main_listing ::
  "(string \<Rightarrow> S3Client) \<Rightarrow> nat list list \<Rightarrow> string list \<Rightarrow> world option" where
  "main_listing network schedule args =
     (let endpoint = args ! 0;
          bucket_name = args ! 1;
          s3_client = network endpoint;
          w0 = world_start schedule;
          w1 = w0\<lparr>cout := cout w0 @
                 [''Reading S3 bucket: '' @ bucket_name @ '' from '' @ endpoint]\<rparr>;
          w2 = start_threads s3_client bucket_name ThreadCount w1
      in list_loop s3_client bucket_name None w2)"

definition main ::
  "(string \<Rightarrow> S3Client) \<Rightarrow> nat list list \<Rightarrow> string \<Rightarrow> string list \<Rightarrow> (int \<times> world) option" where
  "main network schedule argv0 args =
     (if 1 + length args < 3
      then Some (1, (world_start schedule)\<lparr>cout := usage argv0\<rparr>)
      else
        (let s3_client = network (args ! 0);
             bucket_name = args ! 1
         in case main_listing network schedule args of
              None \<Rightarrow> None
            | Some w3 \<Rightarrow>
                (case join_all s3_client bucket_name [0 ..< length (reader_threads w3)]
                        (main_SetEnd s3_client bucket_name w3) of
                   None \<Rightarrow> None
                 | Some w4 \<Rightarrow> Some (0, w4))))"

section \<open>Auxiliary notions for the statements and proofs\<close>

text \<open>
  One reader thread under arbitrary interference: the thread takes one step per
  element of the list, and finds the queue in that state when it takes the step.
  Whatever the other threads did to the queue in between, it is some such list.
\<close>

fun Retriever_run ::
  "S3Client \<Rightarrow> string \<Rightarrow> ObjectList list \<Rightarrow> reader \<Rightarrow> string list \<Rightarrow> reader \<times> string list" where
  "Retriever_run s3_client bucket_name [] t out = (t, out)"
| "Retriever_run s3_client bucket_name (q # qs) t out =
     (case Retriever_step s3_client bucket_name t q out of
        (t', q', out') \<Rightarrow> Retriever_run s3_client bucket_name qs t' out')"

text \<open>
  How far a reader is from returning once the terminal flag is set, and the sum over
  the process: it bounds the number of reader steps that are still to come.
\<close>

fun rank :: "reader_pc \<Rightarrow> nat" where
  "rank Exited = 0"
| "rank AtIsEnd = 1"
| "rank AtPop = 2"
| "rank (AtRetrieve keyrange) = 3"
| "rank AtSleep = 3"

definition work :: "world \<Rightarrow> nat" where
  "work w = sum_list (map (\<lambda>t. rank (pc t)) (reader_threads w)) + 2 * length (keylist (objects w))"

definition from_words :: "u64 \<times> u64 \<Rightarrow> nat \<times> nat" where
  "from_words r = (unat (fst r), unat (snd r))"

text \<open>
  A bucket of three pages for the examples: the first page lists two objects and is
  truncated, the second fails the way the SDK reports a failure (an error, and a
  result that was never filled in), the third lists one more object. The GET of
  object \<open>b\<close> fails.
\<close>

definition no_error :: AWSError where
  "no_error = \<lparr>ExceptionName = '''', Message = ''''\<rparr>"

definition first_page :: ListObjectsV2Outcome where
  "first_page =
     \<lparr>IsSuccess = True,
      Result = \<lparr>Contents = [\<lparr>Key = ''a'', Size = 10\<rparr>, \<lparr>Key = ''b'', Size = 20\<rparr>],
                NextContinuationToken = ''page2'', IsTruncated = True\<rparr>,
      Error = no_error\<rparr>"

definition failed_page :: ListObjectsV2Outcome where
  "failed_page =
     \<lparr>IsSuccess = False,
      Result = \<lparr>Contents = [], NextContinuationToken = '''', IsTruncated = False\<rparr>,
      Error = \<lparr>ExceptionName = ''InternalError'', Message = ''try again''\<rparr>\<rparr>"

definition third_page :: ListObjectsV2Outcome where
  "third_page =
     \<lparr>IsSuccess = True,
      Result = \<lparr>Contents = [\<lparr>Key = ''c'', Size = 5\<rparr>],
                NextContinuationToken = '''', IsTruncated = False\<rparr>,
      Error = no_error\<rparr>"

definition demo_client :: S3Client where
  "demo_client =
     \<lparr>ListObjectsV2 =
        (\<lambda>bucket_name token.
           if token = None then first_page
           else if token = Some ''page2'' then failed_page
           else third_page),
      GetObject =
        (\<lambda>bucket_name key rng.
           if key = ''b''
           then GetObjectError \<lparr>ExceptionName = ''NoSuchKey'', Message = ''gone''\<rparr>
           else GetObjectSuccess)\<rparr>"


text \<open>A service whose listing never ends: every page is truncated.\<close>

definition endless_client :: S3Client where
  "endless_client =
     \<lparr>ListObjectsV2 =
        (\<lambda>bucket_name token.
           \<lparr>IsSuccess = True,
            Result = \<lparr>Contents = [], NextContinuationToken = ''again'', IsTruncated = True\<rparr>,
            Error = no_error\<rparr>),
      GetObject = (\<lambda>bucket_name key rng. GetObjectSuccess)\<rparr>"


section \<open>The chunking loop against the RangePartitioner\<close>

lemma sint_nonneg_unat:
  fixes w :: u64
  assumes "0 \<le> sint w"
  shows "unat w < 9223372036854775808"
proof -
  have lt: "sint w < 2 ^ 63" using sint_lt [of w] by simp
  have "(2::int) ^ 63 \<le> 2 ^ 64" by (rule power_increasing) simp_all
  with lt have "sint w < 2 ^ 64" by linarith
  with assms have "take_bit 64 (sint w) = sint w" by (rule take_bit_int_eq_self)
  moreover have "uint w = take_bit 64 (sint w)" using uint_sint [of w] by simp
  ultimately have "uint w < 2 ^ 63" using lt by simp
  then have "uint w < 9223372036854775808" by simp
  then show ?thesis by (metis of_nat_less_numeral_iff of_nat_unat)
qed

lemma unat_u64_bound: "unat (w :: u64) < 2 ^ 64"
  using unsigned_less [of w, where ?'a = nat] by simp

lemma chunk_step_no_wrap:
  fixes objsize chunk offset :: u64
  assumes "unat objsize < 2 ^ 63" and "offset < objsize"
    and "unat offset = 0 \<or> unat chunk \<le> unat offset"
  shows "unat (offset + chunk) = unat offset + unat chunk"
proof -
  have "unat offset < 2 ^ 63" using assms(1,2) by (simp add: word_less_nat_alt)
  moreover have "unat chunk < 2 ^ 64" by (rule unat_u64_bound)
  ultimately have "unat offset + unat chunk < 2 ^ 64" using assms(3) by auto
  then show ?thesis using unat_add_lem [of offset chunk] by simp
qed

lemma chunk_loop_spec:
  fixes objsize chunk offset :: u64
  assumes "unat objsize < 2 ^ 63" and "0 < chunk"
    and "unat offset = 0 \<or> unat chunk \<le> unat offset"
  shows "chunk_loop body chunk objsize offset st =
           Some (fold (\<lambda>r. body (fst (to_words r)) (snd (to_words r)))
                   (spec_partition (unat chunk) (unat objsize) (unat offset)) st)"
  using assms
proof (induction "unat objsize - unat offset" arbitrary: offset st rule: less_induct)
  case less
  have cpos: "0 < unat chunk" using less.prems(2) by (simp add: word_less_nat_alt)
  show ?case
  proof (cases "offset < objsize")
    case False
    then have "\<not> unat offset < unat objsize" by (simp add: word_less_nat_alt)
    with False show ?thesis
      by (subst chunk_loop.simps, subst spec_partition.simps) simp
  next
    case True
    then have lt: "unat offset < unat objsize" by (simp add: word_less_nat_alt)
    have nw: "unat (offset + chunk) = unat offset + unat chunk"
      by (rule chunk_step_no_wrap [OF less.prems(1) True less.prems(3)])
    have up: "unat (min objsize (offset + chunk)) = min (unat objsize) (unat offset + unat chunk)"
      by (simp add: min_def word_le_nat_alt nw)
    have IH: "chunk_loop body chunk objsize (offset + chunk) st' =
           Some (fold (\<lambda>r. body (fst (to_words r)) (snd (to_words r)))
                   (spec_partition (unat chunk) (unat objsize) (unat (offset + chunk))) st')" for st'
      by (rule less.hyps) (use lt cpos nw less.prems in auto)
    have w1: "(of_nat (unat offset) :: u64) = offset" by simp
    have w2: "(of_nat (min (unat objsize) (unat offset + unat chunk)) :: u64) = min objsize (offset + chunk)"
    proof -
      have "(of_nat (unat (min objsize (offset + chunk))) :: u64) = min objsize (offset + chunk)"
        by simp
      then show ?thesis by (simp only: up)
    qed
    show ?thesis
      apply (subst chunk_loop.simps)
      apply (subst spec_partition.simps)
      apply (simp add: True lt cpos IH nw to_words_def w1 w2 Let_def del: of_nat_min)
      done
  qed
qed

lemma spec_partition_nth:
  "i < length (spec_partition c s lo) \<Longrightarrow>
     spec_partition c s lo ! i = (lo + i * c, min s (lo + Suc i * c)) \<and> lo + i * c < s \<and> 0 < c"
proof (induction c s lo arbitrary: i rule: spec_partition.induct)
  case (1 c s lo)
  from "1.prems" have go: "lo < s \<and> 0 < c"
    by (subst (asm) spec_partition.simps) (simp split: if_splits)
  then have unf: "spec_partition c s lo = (lo, min s (lo + c)) # spec_partition c s (lo + c)"
    by (subst spec_partition.simps) simp
  show ?case
  proof (cases i)
    case 0
    with go unf show ?thesis by simp
  next
    case (Suc j)
    with "1.prems" unf have "j < length (spec_partition c s (lo + c))" by simp
    from "1.IH" [OF go this] Suc unf show ?thesis by (simp add: algebra_simps)
  qed
qed

lemma spec_partition_cover:
  "0 < c \<Longrightarrow> (\<Union>r \<in> set (spec_partition c s lo). {fst r ..< snd r}) = {lo ..< s}"
proof (induction c s lo rule: spec_partition.induct)
  case (1 c s lo)
  show ?case
  proof (cases "lo < s")
    case False
    then show ?thesis by (subst spec_partition.simps) simp
  next
    case True
    with "1.prems" have unf: "spec_partition c s lo = (lo, min s (lo + c)) # spec_partition c s (lo + c)"
      by (subst spec_partition.simps) simp
    have "(\<Union>r \<in> set (spec_partition c s (lo + c)). {fst r ..< snd r}) = {lo + c ..< s}"
      using "1.IH" True "1.prems" by simp
    then show ?thesis using True "1.prems" unfolding unf by auto
  qed
qed

lemma spec_partition_empty: "spec_partition c 0 lo = []"
  by (subst spec_partition.simps) simp

lemma from_to_words:
  fixes objsize :: u64 and c lo :: nat
  defines "ps \<equiv> spec_partition c (unat objsize) lo"
  shows "map from_words (map to_words ps) = ps"
proof (rule nth_equalityI)
  show "length (map from_words (map to_words ps)) = length ps"
    by simp
next
  fix i assume "i < length (map from_words (map to_words ps))"
  then have i: "i < length (spec_partition c (unat objsize) lo)" by (simp add: ps_def)
  from spec_partition_nth [OF i]
  have eq: "ps ! i = (lo + i * c, min (unat objsize) (lo + Suc i * c))"
    and lt: "lo + i * c < unat objsize"
    by (simp_all add: ps_def)
  have "unat (of_nat (lo + i * c) :: u64) = lo + i * c"
    by (rule le_unat_uoi [of _ objsize]) (use lt in simp)
  moreover have "unat (of_nat (min (unat objsize) (lo + Suc i * c)) :: u64)
      = min (unat objsize) (lo + Suc i * c)"
    by (rule le_unat_uoi [of _ objsize]) simp
  ultimately show "map from_words (map to_words ps) ! i = ps ! i"
    using i eq by (simp add: from_words_def to_words_def ps_def del: of_nat_add of_nat_mult of_nat_min)
qed

lemma fold_append_trace:
  "fold (\<lambda>r acc. acc @ [to_words r]) ps acc = acc @ map to_words ps"
  by (induction ps arbitrary: acc) simp_all

lemma chunk_ranges_spec:
  fixes objsize chunk :: u64
  assumes "0 \<le> sint objsize" and "0 < chunk"
  shows "chunk_ranges chunk objsize = Some (map to_words (spec_partition (unat chunk) (unat objsize) 0))"
proof -
  have "unat objsize < 2 ^ 63" using sint_nonneg_unat [OF assms(1)] by simp
  then have "chunk_loop (\<lambda>offset upper_bound acc. acc @ [(offset, upper_bound)]) chunk objsize 0 [] =
      Some (fold (\<lambda>r acc. acc @ [(fst (to_words r), snd (to_words r))])
              (spec_partition (unat chunk) (unat objsize) (unat (0 :: u64))) [])"
    using assms(2) by (intro chunk_loop_spec) simp_all
  then show ?thesis by (simp add: chunk_ranges_def fold_append_trace)
qed

lemma chunk_ranges_nth:
  fixes objsize chunk :: u64
  assumes "chunk_ranges chunk objsize = Some rs" and "0 \<le> sint objsize" and "0 < chunk"
    and "i < length rs"
  shows "unat (fst (rs ! i)) = i * unat chunk"
    and "unat (snd (rs ! i)) = min (unat objsize) (Suc i * unat chunk)"
    and "i * unat chunk < unat objsize"
proof -
  let ?ps = "spec_partition (unat chunk) (unat objsize) 0"
  have rs: "rs = map to_words ?ps"
    using assms(1) chunk_ranges_spec [OF assms(2,3)] by simp
  then have "map from_words rs = ?ps" by (simp only: from_to_words)
  moreover have i: "i < length ?ps" using assms(4) rs by simp
  ultimately have "from_words (rs ! i) = ?ps ! i" using assms(4) by (metis nth_map)
  with spec_partition_nth [OF i]
  show "unat (fst (rs ! i)) = i * unat chunk"
    and "unat (snd (rs ! i)) = min (unat objsize) (Suc i * unat chunk)"
    and "i * unat chunk < unat objsize"
    by (simp_all add: from_words_def)
qed

lemma chunk_ranges_cover:
  fixes objsize chunk :: u64
  assumes "chunk_ranges chunk objsize = Some rs" and "0 \<le> sint objsize" and "0 < chunk"
  shows "(\<Union>r \<in> set rs. {unat (fst r) ..< unat (snd r)}) = {0 ..< unat objsize}"
proof -
  let ?ps = "spec_partition (unat chunk) (unat objsize) 0"
  have rs: "rs = map to_words ?ps"
    using assms(1) chunk_ranges_spec [OF assms(2,3)] by simp
  then have ps: "?ps = map from_words rs" by (simp only: from_to_words)
  have "0 < unat chunk" using assms(3) by (simp add: word_less_nat_alt)
  from spec_partition_cover [OF this, of "unat objsize" 0]
  have "(\<Union>r \<in> set (map from_words rs). {fst r ..< snd r}) = {0 ..< unat objsize}"
    using ps by simp
  then show ?thesis by (simp add: from_words_def)
qed


text \<open>
  Claim C1. Range partitioning: for every object size \<open>s \<ge> 0\<close> (the \<^verbatim>\<open>long long\<close>
  that \<^verbatim>\<open>GetSize()\<close> returns, so \<open>0 \<le> sint objsize\<close> for its cast) and every chunk size
  \<open>c > 0\<close>, the partitioning loop ends, and the pairs \<open>(lower, upper)\<close> it produces are
  non-empty and of length at most \<open>c\<close>, contiguous, strictly increasing and
  non-overlapping, and together cover exactly \<open>[0, s)\<close>; size \<open>0\<close> gives no pair at all.
\<close>

theorem chunk_ranges_partition:
  fixes objsize chunk :: u64
  assumes "0 \<le> sint objsize" and "0 < chunk"
  shows "\<exists>rs. chunk_ranges chunk objsize = Some rs
      \<and> (\<forall>i < length rs. fst (rs ! i) < snd (rs ! i)
            \<and> unat (snd (rs ! i)) - unat (fst (rs ! i)) \<le> unat chunk)
      \<and> (\<forall>i. Suc i < length rs \<longrightarrow> fst (rs ! Suc i) = snd (rs ! i))
      \<and> (\<forall>i j. i < j \<and> j < length rs \<longrightarrow>
            fst (rs ! i) < fst (rs ! j) \<and> snd (rs ! i) \<le> fst (rs ! j))
      \<and> (\<Union>r \<in> set rs. {unat (fst r) ..< unat (snd r)}) = {0 ..< unat objsize}
      \<and> (objsize = 0 \<longrightarrow> rs = [])"
proof -
  obtain rs where rs: "chunk_ranges chunk objsize = Some rs"
    using chunk_ranges_spec [OF assms] by simp
  note nth = chunk_ranges_nth [OF rs assms]
  have cpos: "0 < unat chunk" using assms(2) by (simp add: word_less_nat_alt)
  have p1: "fst (rs ! i) < snd (rs ! i) \<and> unat (snd (rs ! i)) - unat (fst (rs ! i)) \<le> unat chunk"
    if "i < length rs" for i
    using nth [OF that] cpos by (simp add: word_less_nat_alt)
  have p2: "fst (rs ! Suc i) = snd (rs ! i)" if "Suc i < length rs" for i
  proof -
    from that have i: "i < length rs" by simp
    have "unat (fst (rs ! Suc i)) = unat (snd (rs ! i))"
      using nth [OF that] nth(2) [OF i] by simp
    then show ?thesis by (simp only: word_unat_eq_iff)
  qed
  have p3: "fst (rs ! i) < fst (rs ! j) \<and> snd (rs ! i) \<le> fst (rs ! j)"
    if "i < j" and "j < length rs" for i j
  proof -
    from that have i: "i < length rs" by simp
    have le: "Suc i * unat chunk \<le> j * unat chunk"
      using that(1) by (simp only: mult_le_mono1 Suc_leI)
    have "i * unat chunk < Suc i * unat chunk" using cpos by simp
    then have "i * unat chunk < j * unat chunk" using le by (rule less_le_trans)
    then have a: "unat (fst (rs ! i)) < unat (fst (rs ! j))"
      by (simp only: nth(1) [OF i] nth(1) [OF that(2)])
    have "min (unat objsize) (Suc i * unat chunk) \<le> j * unat chunk"
      using le by (rule order_trans [OF min.cobounded2])
    then have b: "unat (snd (rs ! i)) \<le> unat (fst (rs ! j))"
      using nth(2) [OF i] nth(1) [OF that(2)] by simp
    from a b show ?thesis by (simp add: word_less_nat_alt word_le_nat_alt)
  qed
  have p4: "(\<Union>r \<in> set rs. {unat (fst r) ..< unat (snd r)}) = {0 ..< unat objsize}"
    by (rule chunk_ranges_cover [OF rs assms])
  have p5: "rs = []" if "objsize = 0"
    using rs chunk_ranges_spec [OF assms] that by (simp add: spec_partition_empty)
  show ?thesis
  proof (intro exI [of _ rs] conjI allI impI)
    show "chunk_ranges chunk objsize = Some rs" by (rule rs)
    show "\<And>i. i < length rs \<Longrightarrow> fst (rs ! i) < snd (rs ! i)" using p1 by simp
    show "\<And>i. i < length rs \<Longrightarrow> unat (snd (rs ! i)) - unat (fst (rs ! i)) \<le> unat chunk"
      using p1 by simp
    show "\<And>i. Suc i < length rs \<Longrightarrow> fst (rs ! Suc i) = snd (rs ! i)" by (rule p2)
    show "\<And>i j. i < j \<and> j < length rs \<Longrightarrow> fst (rs ! i) < fst (rs ! j)" using p3 by simp
    show "\<And>i j. i < j \<and> j < length rs \<Longrightarrow> snd (rs ! i) \<le> fst (rs ! j)" using p3 by simp
    show "(\<Union>r \<in> set rs. {unat (fst r) ..< unat (snd r)}) = {0 ..< unat objsize}" by (rule p4)
    show "objsize = 0 \<Longrightarrow> rs = []" by (rule p5)
  qed
qed

theorem chunk_ranges_partition_witness:
  "0 \<le> sint (10 :: u64) \<and> (0 :: u64) < 4
   \<and> chunk_ranges 4 10 = Some [(0, 4), (4, 8), (8, 10)]
   \<and> (\<Union>r \<in> set [(0 :: u64, 4 :: u64), (4, 8), (8, 10)]. {unat (fst r) ..< unat (snd r)})
         = {0 ..< unat (10 :: u64)}
   \<and> 0 \<le> sint (0 :: u64) \<and> chunk_ranges 4 0 = Some []"
proof -
  have h1: "0 \<le> sint (10 :: u64)" by simp
  have h2: "(0 :: u64) < 4" by simp
  have v: "chunk_ranges 4 10 = Some [(0, 4), (4, 8), (8, 10)]"
    by (simp add: chunk_ranges_def chunk_loop.simps)
  from chunk_ranges_partition [OF h1 h2] v
  have c: "(\<Union>r \<in> set [(0 :: u64, 4 :: u64), (4, 8), (8, 10)]. {unat (fst r) ..< unat (snd r)})
         = {0 ..< unat (10 :: u64)}"
    by auto
  have h0: "0 \<le> sint (0 :: u64)" by simp
  from chunk_ranges_partition [OF h0 h2]
  have z: "chunk_ranges 4 0 = Some []" by auto
  from h1 h2 v c h0 z show ?thesis by blast
qed


section \<open>The queue under sequences of calls\<close>

lemma call_conservation:
  "delivered [fst (call c q)] @ keylist (snd (call c q)) = keylist q @ pushed [c]"
  by (cases c; cases "keylist q") (simp_all add: push_back_def Pop_def SetEnd_def IsEnd_def)

lemma delivered_Cons: "delivered (r # rs) = delivered [r] @ delivered rs"
  by (cases "(r # rs)" rule: delivered.cases) simp_all

lemma pushed_Cons: "pushed (c # cs) = pushed [c] @ pushed cs"
  by (cases c) simp_all

lemma calls_conservation:
  "delivered (fst (calls cs q)) @ keylist (snd (calls cs q)) = keylist q @ pushed cs"
proof (induction cs arbitrary: q)
  case Nil
  show ?case by simp
next
  case (Cons c cs)
  obtain r q' where c: "call c q = (r, q')" by (cases "call c q")
  obtain rs q'' where cs: "calls cs q' = (rs, q'')" by (cases "calls cs q'")
  have "delivered (r # rs) @ keylist q'' = delivered [r] @ (delivered rs @ keylist q'')"
    by (subst delivered_Cons) simp
  also have "\<dots> = delivered [r] @ (keylist q' @ pushed cs)"
    using Cons.IH [of q'] cs by simp
  also have "\<dots> = (keylist q @ pushed [c]) @ pushed cs"
    using call_conservation [of c q] c by simp
  also have "\<dots> = keylist q @ pushed (c # cs)"
    by (subst (2) pushed_Cons) simp
  finally show ?case using c cs by simp
qed

lemma calls_without_push:
  "pushed cs = [] \<Longrightarrow>
     delivered (fst (calls cs q)) = take (length (filter is_pop cs)) (keylist q)"
proof (induction cs arbitrary: q)
  case Nil
  show ?case by simp
next
  case (Cons c cs)
  from Cons.prems have np: "pushed cs = []" by (cases c) simp_all
  obtain rs q'' where cs: "calls cs (snd (call c q)) = (rs, q'')"
    by (cases "calls cs (snd (call c q))")
  have IH: "delivered rs = take (length (filter is_pop cs)) (keylist (snd (call c q)))"
    using Cons.IH [OF np, of "snd (call c q)"] cs by simp
  show ?case
  proof (cases c)
    case (CallPush key rng)
    with Cons.prems show ?thesis by simp
  next
    case CallPop
    then show ?thesis using IH cs
      by (cases "keylist q") (simp_all add: Pop_def)
  next
    case CallSetEnd
    then show ?thesis using IH cs by (simp add: SetEnd_def)
  next
    case CallIsEnd
    then show ?thesis using IH cs by (simp add: IsEnd_def)
  qed
qed

lemma call_end_marker: "end_marker q \<Longrightarrow> end_marker (snd (call c q))"
  by (cases c; cases "keylist q") (simp_all add: push_back_def Pop_def SetEnd_def IsEnd_def)

lemma calls_end_marker:
  "end_marker q \<Longrightarrow>
     end_marker (snd (calls cs q)) \<and> set (is_end_answers (fst (calls cs q))) \<subseteq> {True}"
proof (induction cs arbitrary: q)
  case Nil
  then show ?case by simp
next
  case (Cons c cs)
  obtain rs q'' where cs: "calls cs (snd (call c q)) = (rs, q'')"
    by (cases "calls cs (snd (call c q))")
  from Cons.IH [OF call_end_marker [OF Cons.prems], of c] cs
  have IH: "end_marker q'' \<and> set (is_end_answers rs) \<subseteq> {True}" by simp
  show ?case using IH cs Cons.prems
    by (cases c; cases "keylist q") (simp_all add: push_back_def Pop_def SetEnd_def IsEnd_def)
qed

text \<open>
  Claim C3. Queue pop semantics and at-most-once delivery: on a non-empty queue \<open>Pop\<close>
  removes and returns the head, on an empty queue it returns the empty optional and
  leaves the queue as it was. Over any sequence of calls, the tasks handed out so far
  followed by the tasks still pending are exactly the tasks the queue held at the
  start followed by the tasks pushed since, in that order: delivery is first-in
  first-out, and no push is handed out twice (distinct tasks give distinct deliveries,
  none of them still pending). Without pushes the deliveries are the first tasks of the
  queue, one per \<open>Pop\<close>; so a queue of \<open>K\<close> tasks gives exactly \<open>K\<close> successful pops once
  at least \<open>K\<close> pops were made.
\<close>

theorem Pop_delivers_once:
  "(\<forall>k ks. keylist q = k # ks \<longrightarrow> Pop q = (Some k, q\<lparr>keylist := ks\<rparr>))
   \<and> (keylist q = [] \<longrightarrow> Pop q = (None, q))
   \<and> delivered (fst (calls cs q)) @ keylist (snd (calls cs q)) = keylist q @ pushed cs
   \<and> (distinct (keylist q @ pushed cs) \<longrightarrow>
        distinct (delivered (fst (calls cs q)))
        \<and> set (delivered (fst (calls cs q))) \<inter> set (keylist (snd (calls cs q))) = {})
   \<and> (pushed cs = [] \<longrightarrow>
        delivered (fst (calls cs q)) = take (length (filter is_pop cs)) (keylist q))
   \<and> (pushed cs = [] \<and> length (keylist q) \<le> length (filter is_pop cs) \<longrightarrow>
        delivered (fst (calls cs q)) = keylist q)"
proof -
  have cons: "delivered (fst (calls cs q)) @ keylist (snd (calls cs q)) = keylist q @ pushed cs"
    by (rule calls_conservation)
  have "distinct (delivered (fst (calls cs q)) @ keylist (snd (calls cs q)))"
    if "distinct (keylist q @ pushed cs)"
    using that by (simp only: cons)
  then have d: "distinct (keylist q @ pushed cs) \<longrightarrow>
        distinct (delivered (fst (calls cs q)))
        \<and> set (delivered (fst (calls cs q))) \<inter> set (keylist (snd (calls cs q))) = {}"
    by simp
  show ?thesis
    using cons d calls_without_push [of cs q] by (simp add: Pop_def)
qed

theorem Pop_delivers_once_witness:
  "keylist \<lparr>keylist = [(''a'', ''bytes=0-4''), (''b'', ''bytes=0-9'')], end_marker = False\<rparr>
     = (''a'', ''bytes=0-4'') # [(''b'', ''bytes=0-9'')]
   \<and> Pop \<lparr>keylist = [(''a'', ''bytes=0-4''), (''b'', ''bytes=0-9'')], end_marker = False\<rparr>
     = (Some (''a'', ''bytes=0-4''), \<lparr>keylist = [(''b'', ''bytes=0-9'')], end_marker = False\<rparr>)
   \<and> keylist ObjectList_new = [] \<and> Pop ObjectList_new = (None, ObjectList_new)
   \<and> delivered (fst (calls [CallPop, CallPush ''c'' ''bytes=0-1'', CallPop, CallPop, CallPop]
         \<lparr>keylist = [(''a'', ''bytes=0-4''), (''b'', ''bytes=0-9'')], end_marker = False\<rparr>))
     = [(''a'', ''bytes=0-4''), (''b'', ''bytes=0-9''), (''c'', ''bytes=0-1'')]
   \<and> distinct (keylist \<lparr>keylist = [(''a'', ''bytes=0-4''), (''b'', ''bytes=0-9'')], end_marker = False\<rparr>
         @ pushed [CallPop, CallPush ''c'' ''bytes=0-1'', CallPop, CallPop, CallPop])
   \<and> pushed [CallPop, CallIsEnd, CallPop, CallPop] = []
   \<and> length (keylist \<lparr>keylist = [(''a'', ''bytes=0-4''), (''b'', ''bytes=0-9'')], end_marker = False\<rparr>)
       \<le> length (filter is_pop [CallPop, CallIsEnd, CallPop, CallPop])
   \<and> delivered (fst (calls [CallPop, CallIsEnd, CallPop, CallPop]
         \<lparr>keylist = [(''a'', ''bytes=0-4''), (''b'', ''bytes=0-9'')], end_marker = False\<rparr>))
     = [(''a'', ''bytes=0-4''), (''b'', ''bytes=0-9'')]"
  using
    Pop_delivers_once [of "\<lparr>keylist = [(''a'', ''bytes=0-4''), (''b'', ''bytes=0-9'')],
        end_marker = False\<rparr>" "[CallPop, CallPush ''c'' ''bytes=0-1'', CallPop, CallPop, CallPop]"]
    Pop_delivers_once [of "\<lparr>keylist = [(''a'', ''bytes=0-4''), (''b'', ''bytes=0-9'')],
        end_marker = False\<rparr>" "[CallPop, CallIsEnd, CallPop, CallPop]"]
    Pop_delivers_once [of ObjectList_new "[]"]
  by (simp add: ObjectList_new_def Pop_def push_back_def IsEnd_def)

text \<open>
  Claim C4. The terminal flag is monotonic and \<open>SetEnd\<close> is idempotent: once \<open>IsEnd\<close>
  answers true, it answers true after any further sequence of calls, pushes and pops
  included, and every \<open>IsEnd\<close> within that sequence answers true; \<open>IsEnd\<close> answers true
  after \<open>SetEnd\<close>; and \<open>SetEnd\<close> twice leaves the same state as \<open>SetEnd\<close> once.
\<close>

theorem end_marker_monotonic:
  "(fst (IsEnd q) \<longrightarrow>
      fst (IsEnd (snd (calls cs q))) \<and> set (is_end_answers (fst (calls cs q))) \<subseteq> {True})
   \<and> fst (IsEnd (SetEnd q))
   \<and> SetEnd (SetEnd q) = SetEnd q"
  using calls_end_marker [of q cs] by (simp add: IsEnd_def SetEnd_def)

theorem end_marker_monotonic_witness:
  "fst (IsEnd (SetEnd ObjectList_new))
   \<and> fst (IsEnd (snd (calls [CallPush ''a'' ''bytes=0-4'', CallIsEnd, CallPop, CallPop, CallIsEnd]
        (SetEnd ObjectList_new))))
   \<and> is_end_answers (fst (calls [CallPush ''a'' ''bytes=0-4'', CallIsEnd, CallPop, CallPop, CallIsEnd]
        (SetEnd ObjectList_new))) = [True, True]"
  using end_marker_monotonic [of "SetEnd ObjectList_new"
      "[CallPush ''a'' ''bytes=0-4'', CallIsEnd, CallPop, CallPop, CallIsEnd]"]
  by (simp add: ObjectList_new_def SetEnd_def IsEnd_def Pop_def push_back_def)

text \<open>
  Claim C10. Frame effects of the queue operations: \<open>push_back\<close> leaves the terminal
  flag as it was, \<open>SetEnd\<close> leaves the pending tasks as they were, \<open>IsEnd\<close> changes
  nothing, and \<open>Pop\<close> on an empty queue reports empty and changes neither the tasks
  nor the flag.
\<close>

theorem queue_frame:
  "end_marker (push_back key rng q) = end_marker q
   \<and> keylist (SetEnd q) = keylist q
   \<and> snd (IsEnd q) = q
   \<and> (keylist q = [] \<longrightarrow> Pop q = (None, q))"
  by (simp add: push_back_def SetEnd_def IsEnd_def Pop_def)

theorem queue_frame_witness:
  "keylist (SetEnd ObjectList_new) = []
   \<and> Pop (SetEnd ObjectList_new) = (None, SetEnd ObjectList_new)
   \<and> end_marker (push_back ''a'' ''bytes=0-4'' (SetEnd ObjectList_new))"
  using queue_frame [of "''a''" "''bytes=0-4''" "SetEnd ObjectList_new"]
  by (simp add: ObjectList_new_def SetEnd_def)


section \<open>What the enumerator pushes for one object\<close>

lemma chunk_ranges_contiguous:
  fixes objsize chunk :: u64
  assumes rs: "chunk_ranges chunk objsize = Some rs" and "0 \<le> sint objsize" and "0 < chunk"
    and "Suc i < length rs"
  shows "fst (rs ! Suc i) = snd (rs ! i)"
proof -
  note nth = chunk_ranges_nth [OF assms(1-3)]
  from assms(4) have i: "i < length rs" by simp
  have "unat (fst (rs ! Suc i)) = unat (snd (rs ! i))"
    using nth [OF assms(4)] nth(2) [OF i] by simp
  then show ?thesis by (simp only: word_unat_eq_iff)
qed

lemma chunk_ranges_upper:
  fixes objsize chunk :: u64
  assumes rs: "chunk_ranges chunk objsize = Some rs" and "0 \<le> sint objsize" and "0 < chunk"
    and i: "i < length rs"
  shows "snd (rs ! i) = min objsize (fst (rs ! i) + chunk)"
proof -
  note nth = chunk_ranges_nth [OF assms]
  have lt: "fst (rs ! i) < objsize" using nth(1,3) by (simp add: word_less_nat_alt)
  have inv: "unat (fst (rs ! i)) = 0 \<or> unat chunk \<le> unat (fst (rs ! i))"
    using nth(1) by (cases i) simp_all
  have nw: "unat (fst (rs ! i) + chunk) = unat (fst (rs ! i)) + unat chunk"
    using sint_nonneg_unat [OF assms(2)] lt inv by (intro chunk_step_no_wrap) simp_all
  have "unat (min objsize (fst (rs ! i) + chunk)) = min (unat objsize) (unat (fst (rs ! i)) + unat chunk)"
    by (simp add: min_def word_le_nat_alt nw)
  also have "\<dots> = unat (snd (rs ! i))" using nth(1,2) by simp
  finally show ?thesis by (simp only: word_unat_eq_iff)
qed

lemma push_object_fold:
  assumes "0 \<le> sint (Size s3_object)"
    and rs: "chunk_ranges ReadChunkSize (Size s3_object) = Some rs"
  shows "push_object s3_client bucket_name s3_object w =
           Some (fold (\<lambda>r. main_push_back s3_client bucket_name (Key s3_object)
                              (ConstructByteRange (fst r) (snd r))) rs w)"
proof -
  have c: "0 < ReadChunkSize" by (simp add: ReadChunkSize_def)
  let ?ps = "spec_partition (unat ReadChunkSize) (unat (Size s3_object)) 0"
  have "rs = map to_words ?ps" using rs chunk_ranges_spec [OF assms(1) c] by simp
  moreover have "push_object s3_client bucket_name s3_object w =
      Some (fold (\<lambda>r. main_push_back s3_client bucket_name (Key s3_object)
                (ConstructByteRange (fst (to_words r)) (snd (to_words r))))
              (spec_partition (unat ReadChunkSize) (unat (Size s3_object)) (unat (0 :: u64))) w)"
    unfolding push_object_def
    using sint_nonneg_unat [OF assms(1)] c by (intro chunk_loop_spec) simp_all
  ultimately show ?thesis by (simp add: fold_map comp_def)
qed

text \<open>
  Claim C9. Range header boundary: \<open>ConstructByteRange lower upper\<close> is the string
  \<open>bytes=\<close>, the decimal digits of \<open>lower\<close>, a dash, and the decimal digits of \<open>upper\<close>.
  For an object (of a size that is not negative) the enumerator pushes one task per
  pair of the chunking loop, in order, with the header built from the pair, and the
  second component of each pair is the exclusive bound \<open>min size (offset + chunk)\<close>.
  So whenever an object needs more than one chunk, the upper endpoint named in the
  header of a chunk is the lower endpoint named in the header of the next chunk.
\<close>

theorem range_header_boundary:
  assumes "0 \<le> sint (Size s3_object)"
  shows "ConstructByteRange lower upper =
           ''bytes='' @ decimal (unat lower) @ ''-'' @ decimal (unat upper)
    \<and> (\<exists>rs. chunk_ranges ReadChunkSize (Size s3_object) = Some rs
          \<and> push_object s3_client bucket_name s3_object w =
              Some (fold (\<lambda>r. main_push_back s3_client bucket_name (Key s3_object)
                                 (ConstructByteRange (fst r) (snd r))) rs w)
          \<and> (\<forall>i < length rs.
                snd (rs ! i) = min (Size s3_object) (fst (rs ! i) + ReadChunkSize))
          \<and> (\<forall>i. Suc i < length rs \<longrightarrow>
                ConstructByteRange (fst (rs ! i)) (snd (rs ! i)) =
                  ''bytes='' @ to_string (fst (rs ! i)) @ ''-'' @ to_string (snd (rs ! i))
                \<and> ConstructByteRange (fst (rs ! Suc i)) (snd (rs ! Suc i)) =
                  ''bytes='' @ to_string (snd (rs ! i)) @ ''-'' @ to_string (snd (rs ! Suc i))))"
proof -
  have c: "0 < ReadChunkSize" by (simp add: ReadChunkSize_def)
  obtain rs where rs: "chunk_ranges ReadChunkSize (Size s3_object) = Some rs"
    using chunk_ranges_spec [OF assms c] by simp
  have a: "ConstructByteRange lower upper =
           ''bytes='' @ decimal (unat lower) @ ''-'' @ decimal (unat upper)"
    by (simp add: ConstructByteRange_def to_string_def)
  have b: "push_object s3_client bucket_name s3_object w =
              Some (fold (\<lambda>r. main_push_back s3_client bucket_name (Key s3_object)
                                 (ConstructByteRange (fst r) (snd r))) rs w)"
    by (rule push_object_fold [OF assms rs])
  have d: "snd (rs ! i) = min (Size s3_object) (fst (rs ! i) + ReadChunkSize)"
    if "i < length rs" for i
    by (rule chunk_ranges_upper [OF rs assms c that])
  have e: "ConstructByteRange (fst (rs ! i)) (snd (rs ! i)) =
                  ''bytes='' @ to_string (fst (rs ! i)) @ ''-'' @ to_string (snd (rs ! i))
         \<and> ConstructByteRange (fst (rs ! Suc i)) (snd (rs ! Suc i)) =
                  ''bytes='' @ to_string (snd (rs ! i)) @ ''-'' @ to_string (snd (rs ! Suc i))"
    if "Suc i < length rs" for i
    using chunk_ranges_contiguous [OF rs assms c that] by (simp add: ConstructByteRange_def)
  show ?thesis
  proof (intro conjI exI [of _ rs] allI impI)
    show "ConstructByteRange lower upper =
           ''bytes='' @ decimal (unat lower) @ ''-'' @ decimal (unat upper)" by (rule a)
    show "chunk_ranges ReadChunkSize (Size s3_object) = Some rs" by (rule rs)
    show "push_object s3_client bucket_name s3_object w =
              Some (fold (\<lambda>r. main_push_back s3_client bucket_name (Key s3_object)
                                 (ConstructByteRange (fst r) (snd r))) rs w)" by (rule b)
    show "\<And>i. i < length rs \<Longrightarrow>
       snd (rs ! i) = min (Size s3_object) (fst (rs ! i) + ReadChunkSize)" by (rule d)
    show "\<And>i. Suc i < length rs \<Longrightarrow> ConstructByteRange (fst (rs ! i)) (snd (rs ! i)) =
                  ''bytes='' @ to_string (fst (rs ! i)) @ ''-'' @ to_string (snd (rs ! i))"
      using e by simp
    show "\<And>i. Suc i < length rs \<Longrightarrow> ConstructByteRange (fst (rs ! Suc i)) (snd (rs ! Suc i)) =
                  ''bytes='' @ to_string (snd (rs ! i)) @ ''-'' @ to_string (snd (rs ! Suc i))"
      using e by simp
  qed
qed

theorem range_header_boundary_witness:
  "0 \<le> sint (Size \<lparr>Key = ''big'', Size = 5000000000\<rparr>)
   \<and> chunk_ranges ReadChunkSize (Size \<lparr>Key = ''big'', Size = 5000000000\<rparr>)
       = Some [(0, 4294967296), (4294967296, 5000000000)]
   \<and> map_option (\<lambda>w. keylist (objects w))
       (push_object demo_client ''bucket'' \<lparr>Key = ''big'', Size = 5000000000\<rparr> (world_start []))
       = Some [(''big'', ''bytes=0-4294967296''), (''big'', ''bytes=4294967296-5000000000'')]"
proof -
  have h: "0 \<le> sint (Size \<lparr>Key = ''big'', Size = 5000000000\<rparr>)" by simp
  have v: "chunk_ranges ReadChunkSize (Size \<lparr>Key = ''big'', Size = 5000000000\<rparr>)
       = Some [(0, 4294967296), (4294967296, 5000000000)]"
    by (simp add: ReadChunkSize_def chunk_ranges_def chunk_loop.simps)
  from range_header_boundary [OF h, of 0 0 demo_client "''bucket''" "world_start []"] v
  have "push_object demo_client ''bucket'' \<lparr>Key = ''big'', Size = 5000000000\<rparr> (world_start [])
      = Some (fold (\<lambda>r. main_push_back demo_client ''bucket'' ''big''
                                 (ConstructByteRange (fst r) (snd r)))
                [(0, 4294967296), (4294967296, 5000000000)] (world_start []))"
    by auto
  then have "map_option (\<lambda>w. keylist (objects w))
       (push_object demo_client ''bucket'' \<lparr>Key = ''big'', Size = 5000000000\<rparr> (world_start []))
       = Some [(''big'', ''bytes=0-4294967296''), (''big'', ''bytes=4294967296-5000000000'')]"
    by (simp add: main_push_back_def yield_def world_start_def ObjectList_new_def push_back_def
      ConstructByteRange_def to_string_def decimal.simps digit_def)
  with h v show ?thesis by blast
qed

text \<open>
  Claim C7. Small-bucket scenario: the chunk size is \<open>4294967296\<close>; an object of size
  \<open>0\<close> gives no task, an object of size \<open>10\<close> gives the one task \<open>[0, 10)\<close>, an
  object of size \<open>5000000000\<close> gives the two tasks \<open>[0, 4294967296)\<close> and
  \<open>[4294967296, 5000000000)\<close>; listing the three objects pushes three tasks in all
  (the queue is read here with no reader thread running).
\<close>

theorem small_bucket_scenario:
  "ReadChunkSize = 4294967296
   \<and> chunk_ranges ReadChunkSize 0 = Some []
   \<and> chunk_ranges ReadChunkSize 10 = Some [(0, 10)]
   \<and> chunk_ranges ReadChunkSize 5000000000 = Some [(0, 4294967296), (4294967296, 5000000000)]
   \<and> map_option (\<lambda>w. keylist (objects w))
        (push_objects s3_client bucket_name
           [\<lparr>Key = k1, Size = 0\<rparr>, \<lparr>Key = k2, Size = 10\<rparr>, \<lparr>Key = k3, Size = 5000000000\<rparr>]
           (world_start []))
       = Some [(k2, ''bytes=0-10''), (k3, ''bytes=0-4294967296''),
               (k3, ''bytes=4294967296-5000000000'')]"
  by (simp add: ReadChunkSize_def chunk_ranges_def chunk_loop.simps push_object_def
      main_push_back_def yield_def world_start_def ObjectList_new_def push_back_def
      ConstructByteRange_def to_string_def decimal.simps digit_def)


section \<open>The Retriever thread\<close>

lemma Retriever_step_justified:
  assumes "pc t = Exited \<longrightarrow> (\<exists>pre. seen t = pre @ [PopEmpty, IsEndGave True])"
    and "pc t = AtIsEnd \<longrightarrow> (\<exists>pre. seen t = pre @ [PopEmpty])"
    and "Retriever_step s3_client bucket_name t q out = (t', q', out')"
  shows "(pc t' = Exited \<longrightarrow> (\<exists>pre. seen t' = pre @ [PopEmpty, IsEndGave True]))
       \<and> (pc t' = AtIsEnd \<longrightarrow> (\<exists>pre. seen t' = pre @ [PopEmpty]))"
proof (cases "pc t")
  case AtPop
  with assms(3) show ?thesis
    by (cases "keylist q") (auto simp: Retriever_step_def Pop_def)
next
  case (AtRetrieve k)
  with assms(3) show ?thesis by (auto simp: Retriever_step_def)
next
  case AtIsEnd
  with assms(2) obtain pre where "seen t = pre @ [PopEmpty]" by blast
  with AtIsEnd assms(3) show ?thesis
    by (cases "end_marker q") (auto simp: Retriever_step_def IsEnd_def)
next
  case AtSleep
  with assms(3) show ?thesis by (auto simp: Retriever_step_def)
next
  case Exited
  with assms show ?thesis by (auto simp: Retriever_step_def)
qed

lemma Retriever_run_justified:
  assumes "pc t = Exited \<longrightarrow> (\<exists>pre. seen t = pre @ [PopEmpty, IsEndGave True])"
    and "pc t = AtIsEnd \<longrightarrow> (\<exists>pre. seen t = pre @ [PopEmpty])"
  shows "pc (fst (Retriever_run s3_client bucket_name qs t out)) = Exited \<longrightarrow>
     (\<exists>pre. seen (fst (Retriever_run s3_client bucket_name qs t out))
               = pre @ [PopEmpty, IsEndGave True])"
  using assms
proof (induction qs arbitrary: t out)
  case Nil
  then show ?case by simp
next
  case (Cons q qs)
  obtain t' q' out' where st: "Retriever_step s3_client bucket_name t q out = (t', q', out')"
    by (cases "Retriever_step s3_client bucket_name t q out")
  from Retriever_step_justified [OF Cons.prems st]
  have "pc t' = Exited \<longrightarrow> (\<exists>pre. seen t' = pre @ [PopEmpty, IsEndGave True])"
    and "pc t' = AtIsEnd \<longrightarrow> (\<exists>pre. seen t' = pre @ [PopEmpty])"
    by simp_all
  from Cons.IH [OF this, of out'] st show ?case by simp
qed

text \<open>
  Claim C5. Worker exit condition: under any interference from the other threads, a
  reader that has returned has, as the last two things its calls on the queue told it,
  a \<open>Pop\<close> that reported empty followed by an \<open>IsEnd\<close> that answered true. While
  \<open>Pop\<close> gives a task the reader retrieves it and goes back to \<open>Pop\<close>; when \<open>Pop\<close>
  reports empty it asks \<open>IsEnd\<close>; when the flag is not set it sleeps and goes back to
  \<open>Pop\<close> instead of returning; when the flag is set it returns.
\<close>

theorem Retriever_exit_condition:
  "(pc (fst (Retriever_run s3_client bucket_name qs reader_start out)) = Exited \<longrightarrow>
      (\<exists>pre. seen (fst (Retriever_run s3_client bucket_name qs reader_start out))
                = pre @ [PopEmpty, IsEndGave True]))
   \<and> (\<forall>k ks. pc t = AtPop \<and> keylist q = k # ks \<longrightarrow>
        Retriever_step s3_client bucket_name t q out' =
          (t\<lparr>pc := AtRetrieve k, seen := seen t @ [PopGave k]\<rparr>, q\<lparr>keylist := ks\<rparr>, out'))
   \<and> (\<forall>k. pc t = AtRetrieve k \<longrightarrow>
        Retriever_step s3_client bucket_name t q out' =
          (t\<lparr>pc := AtPop\<rparr>, q,
           RetrieveObjectRange s3_client bucket_name (fst k) (snd k) out'))
   \<and> (pc t = AtPop \<and> keylist q = [] \<longrightarrow>
        Retriever_step s3_client bucket_name t q out' =
          (t\<lparr>pc := AtIsEnd, seen := seen t @ [PopEmpty]\<rparr>, q, out'))
   \<and> (pc t = AtIsEnd \<and> \<not> end_marker q \<longrightarrow>
        Retriever_step s3_client bucket_name t q out' =
          (t\<lparr>pc := AtSleep, seen := seen t @ [IsEndGave False]\<rparr>, q, out'))
   \<and> (pc t = AtSleep \<longrightarrow>
        Retriever_step s3_client bucket_name t q out' = (t\<lparr>pc := AtPop\<rparr>, q, out'))
   \<and> (pc t = AtIsEnd \<and> end_marker q \<longrightarrow>
        Retriever_step s3_client bucket_name t q out' =
          (t\<lparr>pc := Exited, seen := seen t @ [IsEndGave True]\<rparr>, q, out'))"
proof -
  have "pc (fst (Retriever_run s3_client bucket_name qs reader_start out)) = Exited \<longrightarrow>
      (\<exists>pre. seen (fst (Retriever_run s3_client bucket_name qs reader_start out))
                = pre @ [PopEmpty, IsEndGave True])"
    by (rule Retriever_run_justified) (simp_all add: reader_start_def)
  then show ?thesis
    by (simp add: Retriever_step_def Pop_def IsEnd_def)
qed

theorem Retriever_exit_condition_witness:
  "fst (Retriever_run demo_client ''bucket''
      [ObjectList_new, ObjectList_new, ObjectList_new,
       \<lparr>keylist = [(''a'', ''bytes=0-10'')], end_marker = False\<rparr>,
       ObjectList_new, SetEnd ObjectList_new, SetEnd ObjectList_new]
      reader_start [])
   = \<lparr>pc = Exited,
      seen = [PopEmpty, IsEndGave False, PopGave (''a'', ''bytes=0-10''), PopEmpty,
              IsEndGave True]\<rparr>
   \<and> Retriever_step demo_client ''bucket'' \<lparr>pc = AtPop, seen = []\<rparr>
         \<lparr>keylist = [(''a'', ''bytes=0-10'')], end_marker = False\<rparr> []
       = (\<lparr>pc = AtRetrieve (''a'', ''bytes=0-10''), seen = [PopGave (''a'', ''bytes=0-10'')]\<rparr>,
          \<lparr>keylist = [], end_marker = False\<rparr>, [])
   \<and> Retriever_step demo_client ''bucket'' \<lparr>pc = AtRetrieve (''a'', ''bytes=0-10''), seen = []\<rparr>
         ObjectList_new []
       = (\<lparr>pc = AtPop, seen = []\<rparr>, ObjectList_new, [''Read a bytes=0-10''])
   \<and> Retriever_step demo_client ''bucket'' \<lparr>pc = AtPop, seen = []\<rparr> ObjectList_new []
       = (\<lparr>pc = AtIsEnd, seen = [PopEmpty]\<rparr>, ObjectList_new, [])
   \<and> Retriever_step demo_client ''bucket'' \<lparr>pc = AtIsEnd, seen = [PopEmpty]\<rparr> ObjectList_new []
       = (\<lparr>pc = AtSleep, seen = [PopEmpty, IsEndGave False]\<rparr>, ObjectList_new, [])
   \<and> Retriever_step demo_client ''bucket'' \<lparr>pc = AtSleep, seen = []\<rparr> ObjectList_new []
       = (\<lparr>pc = AtPop, seen = []\<rparr>, ObjectList_new, [])
   \<and> Retriever_step demo_client ''bucket'' \<lparr>pc = AtIsEnd, seen = [PopEmpty]\<rparr>
         (SetEnd ObjectList_new) []
       = (\<lparr>pc = Exited, seen = [PopEmpty, IsEndGave True]\<rparr>, SetEnd ObjectList_new, [])"
proof -
  let ?qs = "[ObjectList_new, ObjectList_new, ObjectList_new,
       \<lparr>keylist = [(''a'', ''bytes=0-10'')], end_marker = False\<rparr>,
       ObjectList_new, SetEnd ObjectList_new, SetEnd ObjectList_new]"
  have run: "fst (Retriever_run demo_client ''bucket'' ?qs reader_start [])
      = \<lparr>pc = Exited,
         seen = [PopEmpty, IsEndGave False, PopGave (''a'', ''bytes=0-10''), PopEmpty,
                 IsEndGave True]\<rparr>"
    by (simp add: Retriever_step_def Pop_def IsEnd_def SetEnd_def ObjectList_new_def
        reader_start_def RetrieveObjectRange_def demo_client_def)
  note t = Retriever_exit_condition [of demo_client "''bucket''" ?qs "[]" _ _ "[]"]
  have get: "RetrieveObjectRange demo_client ''bucket'' ''a'' ''bytes=0-10'' []
      = [''Read a bytes=0-10'']"
    by (simp add: RetrieveObjectRange_def demo_client_def)
  from t [of "\<lparr>pc = AtPop, seen = []\<rparr>"
      "\<lparr>keylist = [(''a'', ''bytes=0-10'')], end_marker = False\<rparr>"]
  have a: "Retriever_step demo_client ''bucket'' \<lparr>pc = AtPop, seen = []\<rparr>
         \<lparr>keylist = [(''a'', ''bytes=0-10'')], end_marker = False\<rparr> []
       = (\<lparr>pc = AtRetrieve (''a'', ''bytes=0-10''), seen = [PopGave (''a'', ''bytes=0-10'')]\<rparr>,
          \<lparr>keylist = [], end_marker = False\<rparr>, [])"
    by simp
  from t [of "\<lparr>pc = AtRetrieve (''a'', ''bytes=0-10''), seen = []\<rparr>" ObjectList_new] get
  have b: "Retriever_step demo_client ''bucket'' \<lparr>pc = AtRetrieve (''a'', ''bytes=0-10''), seen = []\<rparr>
         ObjectList_new []
       = (\<lparr>pc = AtPop, seen = []\<rparr>, ObjectList_new, [''Read a bytes=0-10''])"
    by simp
  from t [of "\<lparr>pc = AtPop, seen = []\<rparr>" ObjectList_new]
  have c: "Retriever_step demo_client ''bucket'' \<lparr>pc = AtPop, seen = []\<rparr> ObjectList_new []
       = (\<lparr>pc = AtIsEnd, seen = [PopEmpty]\<rparr>, ObjectList_new, [])"
    by (simp add: ObjectList_new_def)
  from t [of "\<lparr>pc = AtIsEnd, seen = [PopEmpty]\<rparr>" ObjectList_new]
  have d: "Retriever_step demo_client ''bucket'' \<lparr>pc = AtIsEnd, seen = [PopEmpty]\<rparr> ObjectList_new []
       = (\<lparr>pc = AtSleep, seen = [PopEmpty, IsEndGave False]\<rparr>, ObjectList_new, [])"
    by (simp add: ObjectList_new_def)
  from t [of "\<lparr>pc = AtSleep, seen = []\<rparr>" ObjectList_new]
  have e: "Retriever_step demo_client ''bucket'' \<lparr>pc = AtSleep, seen = []\<rparr> ObjectList_new []
       = (\<lparr>pc = AtPop, seen = []\<rparr>, ObjectList_new, [])"
    by simp
  from t [of "\<lparr>pc = AtIsEnd, seen = [PopEmpty]\<rparr>" "SetEnd ObjectList_new"]
  have f: "Retriever_step demo_client ''bucket'' \<lparr>pc = AtIsEnd, seen = [PopEmpty]\<rparr>
         (SetEnd ObjectList_new) []
       = (\<lparr>pc = Exited, seen = [PopEmpty, IsEndGave True]\<rparr>, SetEnd ObjectList_new, [])"
    by (simp add: ObjectList_new_def SetEnd_def)
  from run a b c d e f show ?thesis by blast
qed

lemma Retriever_step_never_pushes:
  "Retriever_step s3_client bucket_name t q out = (t', q', out') \<Longrightarrow>
     end_marker q' = end_marker q \<and> (keylist q' = keylist q \<or> keylist q' = tl (keylist q))"
  by (cases "pc t"; cases "keylist q")
    (auto simp: Retriever_step_def Pop_def IsEnd_def)

text \<open>
  Claim C6. Retrieval-failure handling: when the GET of the task a reader holds reports
  an error, the step of that reader appends the one line naming the error to standard
  output and leaves the reader about to call \<open>Pop\<close> again; the queue is as it was (the
  failed task is not pushed back), the thread has not returned, and no other thread is
  touched. No step of any reader, failed retrieval or not, ever makes the queue longer.
\<close>

theorem retrieval_failure_handling:
  assumes "i < length (reader_threads w)"
    and "pc (reader_threads w ! i) = AtRetrieve (key, rng)"
    and "GetObject s3_client bucket_name key rng = GetObjectError e"
  shows "step_thread s3_client bucket_name i w =
           w\<lparr>cout := cout w @ [''GetObject error: '' @ ExceptionName e @ '' '' @ Message e],
             reader_threads := (reader_threads w)[i := (reader_threads w ! i)\<lparr>pc := AtPop\<rparr>]\<rparr>
    \<and> objects (step_thread s3_client bucket_name i w) = objects w
    \<and> pc (reader_threads (step_thread s3_client bucket_name i w) ! i) = AtPop
    \<and> length (reader_threads (step_thread s3_client bucket_name i w)) = length (reader_threads w)
    \<and> (\<forall>j. j \<noteq> i \<longrightarrow>
          reader_threads (step_thread s3_client bucket_name i w) ! j = reader_threads w ! j)
    \<and> (\<forall>j w'. length (keylist (objects (step_thread s3_client bucket_name j w')))
                \<le> length (keylist (objects w')))"
proof -
  have eq: "step_thread s3_client bucket_name i w =
           w\<lparr>cout := cout w @ [''GetObject error: '' @ ExceptionName e @ '' '' @ Message e],
             reader_threads := (reader_threads w)[i := (reader_threads w ! i)\<lparr>pc := AtPop\<rparr>]\<rparr>"
    using assms by (simp add: step_thread_def Retriever_step_def RetrieveObjectRange_def)
  have np: "length (keylist (objects (step_thread s3_client bucket_name j w')))
                \<le> length (keylist (objects w'))" for j w'
  proof (cases "j < length (reader_threads w')")
    case False
    then show ?thesis by (simp add: step_thread_def)
  next
    case True
    obtain t' q' out' where st: "Retriever_step s3_client bucket_name (reader_threads w' ! j)
        (objects w') (cout w') = (t', q', out')"
      by (cases "Retriever_step s3_client bucket_name (reader_threads w' ! j) (objects w') (cout w')")
    from Retriever_step_never_pushes [OF st] True st show ?thesis
      by (auto simp: step_thread_def)
  qed
  show ?thesis
    unfolding eq using assms(1) np by simp
qed

theorem retrieval_failure_handling_witness:
  "step_thread demo_client ''bucket'' 0
     \<lparr>objects = \<lparr>keylist = [(''a'', ''bytes=0-10'')], end_marker = False\<rparr>,
      cout = [],
      reader_threads = [\<lparr>pc = AtRetrieve (''b'', ''bytes=0-20''), seen = []\<rparr>, reader_start],
      listed = [], sched = []\<rparr>
   = \<lparr>objects = \<lparr>keylist = [(''a'', ''bytes=0-10'')], end_marker = False\<rparr>,
      cout = [''GetObject error: NoSuchKey gone''],
      reader_threads = [\<lparr>pc = AtPop, seen = []\<rparr>, reader_start],
      listed = [], sched = []\<rparr>
   \<and> GetObject demo_client ''bucket'' ''b'' ''bytes=0-20''
       = GetObjectError \<lparr>ExceptionName = ''NoSuchKey'', Message = ''gone''\<rparr>
   \<and> pc (reader_threads
        (step_thread demo_client ''bucket'' 0
          (step_thread demo_client ''bucket'' 0
            \<lparr>objects = \<lparr>keylist = [(''a'', ''bytes=0-10'')], end_marker = False\<rparr>,
             cout = [],
             reader_threads = [\<lparr>pc = AtRetrieve (''b'', ''bytes=0-20''), seen = []\<rparr>, reader_start],
             listed = [], sched = []\<rparr>)) ! 0)
       = AtRetrieve (''a'', ''bytes=0-10'')"
proof -
  let ?w = "\<lparr>objects = \<lparr>keylist = [(''a'', ''bytes=0-10'')], end_marker = False\<rparr>,
      cout = [],
      reader_threads = [\<lparr>pc = AtRetrieve (''b'', ''bytes=0-20''), seen = []\<rparr>, reader_start],
      listed = [], sched = []\<rparr>"
  have h1: "0 < length (reader_threads ?w)" by simp
  have h2: "pc (reader_threads ?w ! 0) = AtRetrieve (''b'', ''bytes=0-20'')" by simp
  have h3: "GetObject demo_client ''bucket'' ''b'' ''bytes=0-20''
       = GetObjectError \<lparr>ExceptionName = ''NoSuchKey'', Message = ''gone''\<rparr>"
    by (simp add: demo_client_def)
  from retrieval_failure_handling [OF h1 h2 h3]
  have eq: "step_thread demo_client ''bucket'' 0 ?w =
      ?w\<lparr>cout := cout ?w @ [''GetObject error: '' @ ''NoSuchKey'' @ '' '' @ ''gone''],
         reader_threads := (reader_threads ?w)[0 := (reader_threads ?w ! 0)\<lparr>pc := AtPop\<rparr>]\<rparr>"
    by simp
  then have a: "step_thread demo_client ''bucket'' 0 ?w
   = \<lparr>objects = \<lparr>keylist = [(''a'', ''bytes=0-10'')], end_marker = False\<rparr>,
      cout = [''GetObject error: NoSuchKey gone''],
      reader_threads = [\<lparr>pc = AtPop, seen = []\<rparr>, reader_start],
      listed = [], sched = []\<rparr>"
    by simp
  have b: "pc (reader_threads (step_thread demo_client ''bucket'' 0
              (step_thread demo_client ''bucket'' 0 ?w)) ! 0)
       = AtRetrieve (''a'', ''bytes=0-10'')"
    unfolding a by (simp add: step_thread_def Retriever_step_def Pop_def)
  from a h3 b show ?thesis by blast
qed


section \<open>Joining the readers\<close>

lemma sum_list_map_update:
  fixes f :: "'a \<Rightarrow> nat"
  shows "i < length xs \<Longrightarrow>
     sum_list (map f (xs[i := y])) + f (xs ! i) = sum_list (map f xs) + f y"
proof (induction xs arbitrary: i)
  case Nil
  then show ?case by simp
next
  case (Cons x xs)
  show ?case
  proof (cases i)
    case 0
    then show ?thesis by simp
  next
    case (Suc j)
    with Cons.prems have "j < length xs" by simp
    from Cons.IH [OF this] Suc show ?thesis by simp
  qed
qed

lemma Retriever_step_rank:
  assumes "Retriever_step s3_client bucket_name t q out = (t', q', out')" and "end_marker q"
  shows "rank (pc t') + 2 * length (keylist q') \<le> rank (pc t) + 2 * length (keylist q)"
    and "pc t \<noteq> Exited \<Longrightarrow>
           rank (pc t') + 2 * length (keylist q') < rank (pc t) + 2 * length (keylist q)"
    and "pc t = Exited \<Longrightarrow> pc t' = Exited"
  using assms
  by (cases "pc t"; cases "keylist q"; auto simp: Retriever_step_def Pop_def IsEnd_def)+

lemma step_thread_frame:
  "length (reader_threads (step_thread s3_client bucket_name i w)) = length (reader_threads w)"
  "end_marker (objects (step_thread s3_client bucket_name i w)) = end_marker (objects w)"
  "sched (step_thread s3_client bucket_name i w) = sched w"
  "j \<noteq> i \<Longrightarrow> reader_threads (step_thread s3_client bucket_name i w) ! j = reader_threads w ! j"
proof -
  obtain t' q' out' where st: "Retriever_step s3_client bucket_name (reader_threads w ! i)
      (objects w) (cout w) = (t', q', out')"
    by (cases "Retriever_step s3_client bucket_name (reader_threads w ! i) (objects w) (cout w)")
  note np = Retriever_step_never_pushes [OF st]
  show "length (reader_threads (step_thread s3_client bucket_name i w)) = length (reader_threads w)"
    using st by (simp add: step_thread_def)
  show "end_marker (objects (step_thread s3_client bucket_name i w)) = end_marker (objects w)"
    using st np by (simp add: step_thread_def)
  show "sched (step_thread s3_client bucket_name i w) = sched w"
    using st by (simp add: step_thread_def)
  show "j \<noteq> i \<Longrightarrow> reader_threads (step_thread s3_client bucket_name i w) ! j = reader_threads w ! j"
    using st by (simp add: step_thread_def)
qed

lemma step_thread_work:
  assumes "end_marker (objects w)"
  shows "work (step_thread s3_client bucket_name i w) \<le> work w"
    and "i < length (reader_threads w) \<Longrightarrow> pc (reader_threads w ! i) \<noteq> Exited \<Longrightarrow>
           work (step_thread s3_client bucket_name i w) < work w"
    and "pc (reader_threads w ! j) = Exited \<Longrightarrow>
           pc (reader_threads (step_thread s3_client bucket_name i w) ! j) = Exited"
proof -
  obtain t' q' out' where st: "Retriever_step s3_client bucket_name (reader_threads w ! i)
      (objects w) (cout w) = (t', q', out')"
    by (cases "Retriever_step s3_client bucket_name (reader_threads w ! i) (objects w) (cout w)")
  note rk = Retriever_step_rank [OF st assms]
  let ?f = "\<lambda>t. rank (pc t)"
  have upd: "sum_list (map ?f ((reader_threads w)[i := t'])) + ?f (reader_threads w ! i)
      = sum_list (map ?f (reader_threads w)) + ?f t'"
    if "i < length (reader_threads w)"
    by (rule sum_list_map_update [OF that])
  show "work (step_thread s3_client bucket_name i w) \<le> work w"
  proof (cases "i < length (reader_threads w)")
    case False
    then show ?thesis by (simp add: step_thread_def)
  next
    case True
    with upd rk(1) st show ?thesis by (simp add: step_thread_def work_def)
  qed
  show "work (step_thread s3_client bucket_name i w) < work w"
    if "i < length (reader_threads w)" and "pc (reader_threads w ! i) \<noteq> Exited"
    using upd [OF that(1)] rk(2) [OF that(2)] st that(1) by (simp add: step_thread_def work_def)
  show "pc (reader_threads (step_thread s3_client bucket_name i w) ! j) = Exited"
    if "pc (reader_threads w ! j) = Exited"
  proof (cases "j = i \<and> i < length (reader_threads w)")
    case True
    with that rk(3) st show ?thesis by (simp add: step_thread_def)
  next
    case False
    with that st show ?thesis by (auto simp: step_thread_def)
  qed
qed

lemma run_threads_frame:
  "length (reader_threads (run_threads s3_client bucket_name burst w)) = length (reader_threads w)"
  "end_marker (objects (run_threads s3_client bucket_name burst w)) = end_marker (objects w)"
  "sched (run_threads s3_client bucket_name burst w) = sched w"
  by (induction burst arbitrary: w) (simp_all add: run_threads_def step_thread_frame)

lemma run_threads_work:
  "end_marker (objects w) \<Longrightarrow> work (run_threads s3_client bucket_name burst w) \<le> work w"
proof (induction burst arbitrary: w)
  case Nil
  show ?case by (simp add: run_threads_def)
next
  case (Cons i burst)
  let ?w = "step_thread s3_client bucket_name i w"
  from Cons.prems have e: "end_marker (objects ?w)" by (simp add: step_thread_frame)
  have "work (run_threads s3_client bucket_name burst ?w) \<le> work ?w" by (rule Cons.IH [OF e])
  also have "\<dots> \<le> work w" by (rule step_thread_work(1) [OF Cons.prems])
  finally show ?case by (simp add: run_threads_def)
qed

lemma run_threads_Exited:
  "end_marker (objects w) \<Longrightarrow> pc (reader_threads w ! j) = Exited \<Longrightarrow>
     pc (reader_threads (run_threads s3_client bucket_name burst w) ! j) = Exited"
proof (induction burst arbitrary: w)
  case Nil
  then show ?case by (simp add: run_threads_def)
next
  case (Cons i burst)
  let ?w = "step_thread s3_client bucket_name i w"
  from Cons.prems have e: "end_marker (objects ?w)" by (simp add: step_thread_frame)
  have "pc (reader_threads ?w ! j) = Exited" by (rule step_thread_work(3) [OF Cons.prems])
  from Cons.IH [OF e this] show ?case by (simp add: run_threads_def)
qed

lemma run_threads_progress:
  assumes "end_marker (objects w)" and "i \<in> set burst" and "i < length (reader_threads w)"
    and "pc (reader_threads w ! i) \<noteq> Exited"
  shows "work (run_threads s3_client bucket_name burst w) < work w"
  using assms
proof (induction burst arbitrary: w)
  case Nil
  then show ?case by simp
next
  case (Cons j burst)
  let ?w = "step_thread s3_client bucket_name j w"
  have e: "end_marker (objects ?w)" using Cons.prems(1) by (simp add: step_thread_frame)
  have rest: "work (run_threads s3_client bucket_name burst ?w) \<le> work ?w"
    by (rule run_threads_work [OF e])
  show ?case
  proof (cases "j = i")
    case True
    have "work ?w < work w"
      unfolding True by (rule step_thread_work(2) [OF Cons.prems(1,3,4)])
    with rest show ?thesis by (simp add: run_threads_def)
  next
    case False
    with Cons.prems(2) have i: "i \<in> set burst" by simp
    have "reader_threads ?w ! i = reader_threads w ! i"
      using False by (simp add: step_thread_frame)
    with Cons.prems have "work (run_threads s3_client bucket_name burst ?w) < work ?w"
      by (intro Cons.IH [OF e i]) (simp_all add: step_thread_frame)
    also have "\<dots> \<le> work w" by (rule step_thread_work(1) [OF Cons.prems(1)])
    finally show ?thesis by (simp add: run_threads_def)
  qed
qed

lemma wait_frame:
  "length (reader_threads (wait s3_client bucket_name w)) = length (reader_threads w)"
  "end_marker (objects (wait s3_client bucket_name w)) = end_marker (objects w)"
  by (cases "sched w"; simp add: wait_def run_threads_frame)+

lemma wait_Exited:
  "end_marker (objects w) \<Longrightarrow> pc (reader_threads w ! j) = Exited \<Longrightarrow>
     pc (reader_threads (wait s3_client bucket_name w) ! j) = Exited"
  by (cases "sched w") (simp_all add: wait_def run_threads_Exited)

lemma wait_progress:
  assumes "end_marker (objects w)" and "i < length (reader_threads w)"
    and "pc (reader_threads w ! i) \<noteq> Exited"
  shows "length (sched (wait s3_client bucket_name w)) < length (sched w)
       \<or> length (sched (wait s3_client bucket_name w)) = length (sched w)
          \<and> work (wait s3_client bucket_name w) < work w"
proof (cases "sched w")
  case Nil
  have "work (run_threads s3_client bucket_name [0 ..< length (reader_threads w)] w) < work w"
    using assms by (intro run_threads_progress [where i = i]) simp_all
  with Nil show ?thesis by (simp add: wait_def run_threads_frame)
next
  case (Cons burst rest)
  then show ?thesis by (simp add: wait_def run_threads_frame)
qed

lemma join_returns:
  assumes "end_marker (objects w)" and "i < length (reader_threads w)"
  shows "\<exists>w'. join s3_client bucket_name i w = Some w'
           \<and> pc (reader_threads w' ! i) = Exited
           \<and> end_marker (objects w')
           \<and> length (reader_threads w') = length (reader_threads w)
           \<and> (\<forall>j. pc (reader_threads w ! j) = Exited \<longrightarrow> pc (reader_threads w' ! j) = Exited)"
  using assms
proof (induction "(length (sched w), work w)" arbitrary: w
    rule: wf_induct_rule [OF wf_lex_prod [OF wf_less_than wf_less_than]])
  case less: 1
  show ?case
  proof (cases "pc (reader_threads w ! i) = Exited")
    case True
    then have "join s3_client bucket_name i w = Some w" by (subst join.simps) simp
    with True less.prems show ?thesis by simp
  next
    case False
    let ?w = "wait s3_client bucket_name w"
    have unf: "join s3_client bucket_name i w = join s3_client bucket_name i ?w"
      using False by (subst join.simps) simp
    have dec: "((length (sched ?w), work ?w), (length (sched w), work w))
        \<in> less_than <*lex*> less_than"
      using wait_progress [OF less.prems False] by auto
    have e: "end_marker (objects ?w)" using less.prems(1) by (simp add: wait_frame)
    have l: "i < length (reader_threads ?w)" using less.prems(2) by (simp add: wait_frame)
    from less.hyps [OF dec e l] obtain w' where w':
      "join s3_client bucket_name i ?w = Some w'"
      "pc (reader_threads w' ! i) = Exited"
      "end_marker (objects w')"
      "length (reader_threads w') = length (reader_threads ?w)"
      "\<forall>j. pc (reader_threads ?w ! j) = Exited \<longrightarrow> pc (reader_threads w' ! j) = Exited"
      by blast
    have "\<forall>j. pc (reader_threads w ! j) = Exited \<longrightarrow> pc (reader_threads w' ! j) = Exited"
      using w'(5) wait_Exited [OF less.prems(1)] by blast
    with w' unf show ?thesis by (simp add: wait_frame)
  qed
qed

lemma join_all_returns:
  assumes "end_marker (objects w)" and "\<forall>i \<in> set idxs. i < length (reader_threads w)"
  shows "\<exists>w'. join_all s3_client bucket_name idxs w = Some w'
           \<and> (\<forall>i \<in> set idxs. pc (reader_threads w' ! i) = Exited)
           \<and> end_marker (objects w')
           \<and> length (reader_threads w') = length (reader_threads w)
           \<and> (\<forall>j. pc (reader_threads w ! j) = Exited \<longrightarrow> pc (reader_threads w' ! j) = Exited)"
  using assms
proof (induction idxs arbitrary: w)
  case Nil
  then show ?case by simp
next
  case (Cons i idxs)
  from Cons.prems have i: "i < length (reader_threads w)" by simp
  from join_returns [OF Cons.prems(1) i] obtain w1 where w1:
    "join s3_client bucket_name i w = Some w1"
    "pc (reader_threads w1 ! i) = Exited"
    "end_marker (objects w1)"
    "length (reader_threads w1) = length (reader_threads w)"
    "\<forall>j. pc (reader_threads w ! j) = Exited \<longrightarrow> pc (reader_threads w1 ! j) = Exited"
    by blast
  have "\<forall>i \<in> set idxs. i < length (reader_threads w1)" using Cons.prems(2) w1(4) by simp
  from Cons.IH [OF w1(3) this] obtain w2 where w2:
    "join_all s3_client bucket_name idxs w1 = Some w2"
    "\<forall>i \<in> set idxs. pc (reader_threads w2 ! i) = Exited"
    "end_marker (objects w2)"
    "length (reader_threads w2) = length (reader_threads w1)"
    "\<forall>j. pc (reader_threads w1 ! j) = Exited \<longrightarrow> pc (reader_threads w2 ! j) = Exited"
    by blast
  have "join_all s3_client bucket_name (i # idxs) w = Some w2" using w1(1) w2(1) by simp
  moreover have "\<forall>k \<in> set (i # idxs). pc (reader_threads w2 ! k) = Exited"
    using w1(2) w2(2,5) by simp
  moreover have "\<forall>j. pc (reader_threads w ! j) = Exited \<longrightarrow> pc (reader_threads w2 ! j) = Exited"
    using w1(5) w2(5) by blast
  ultimately show ?case using w2(3,4) w1(4) by simp
qed

lemma yield_frame:
  "length (reader_threads (yield s3_client bucket_name w)) = length (reader_threads w)"
  "end_marker (objects (yield s3_client bucket_name w)) = end_marker (objects w)"
  by (cases "sched w"; simp add: yield_def run_threads_frame)+

lemma main_joins:
  assumes "main_listing network schedule args = Some w3"
  shows "\<exists>w4. join_all (network (args ! 0)) (args ! 1) [0 ..< length (reader_threads w3)]
                 (main_SetEnd (network (args ! 0)) (args ! 1) w3) = Some w4
           \<and> (\<forall>t \<in> set (reader_threads w4). pc t = Exited)
           \<and> end_marker (objects w4)
           \<and> length (reader_threads w4) = length (reader_threads w3)"
proof -
  let ?w = "main_SetEnd (network (args ! 0)) (args ! 1) w3"
  have e: "end_marker (objects ?w)" by (simp add: main_SetEnd_def yield_frame SetEnd_def)
  have l: "length (reader_threads ?w) = length (reader_threads w3)"
    by (simp add: main_SetEnd_def yield_frame)
  then have "\<forall>i \<in> set [0 ..< length (reader_threads w3)]. i < length (reader_threads ?w)" by simp
  from join_all_returns [OF e this] obtain w4 where w4:
    "join_all (network (args ! 0)) (args ! 1) [0 ..< length (reader_threads w3)] ?w = Some w4"
    "\<forall>i \<in> set [0 ..< length (reader_threads w3)]. pc (reader_threads w4 ! i) = Exited"
    "end_marker (objects w4)"
    "length (reader_threads w4) = length (reader_threads ?w)"
    by blast
  have "\<forall>t \<in> set (reader_threads w4). pc t = Exited"
    using w4(2,4) l by (auto simp: in_set_conv_nth)
  with w4 l show ?thesis by simp
qed

section \<open>Invariants of the listing loop\<close>

lemma chunk_loop_invariant:
  assumes res: "chunk_loop body chunk objsize offset st = Some st'"
    and step: "\<And>lo up s. I s \<Longrightarrow> I (body lo up s)" and init: "I st"
  shows "I st'"
proof -
  have "(\<forall>lo up s. I s \<longrightarrow> I (body lo up s)) \<longrightarrow> I st \<longrightarrow> I st'"
  proof (rule chunk_loop.raw_induct
      [where P = "\<lambda>body chunk objsize offset st st'.
          (\<forall>lo up s. I s \<longrightarrow> I (body lo up s)) \<longrightarrow> I st \<longrightarrow> I st'", OF _ res])
    fix loop body chunk objsize offset and st st' :: 'a
    assume IH: "\<And>body chunk objsize offset st st'. loop body chunk objsize offset st = Some st' \<Longrightarrow>
        (\<forall>lo up s. I s \<longrightarrow> I (body lo up s)) \<longrightarrow> I st \<longrightarrow> I st'"
      and unf: "(if offset < objsize
          then let upper_bound = min objsize (offset + chunk)
               in loop body chunk objsize (offset + chunk) (body offset upper_bound st)
          else Some st) = Some st'"
    show "(\<forall>lo up s. I s \<longrightarrow> I (body lo up s)) \<longrightarrow> I st \<longrightarrow> I st'"
    proof (cases "offset < objsize")
      case True
      with unf have "loop body chunk objsize (offset + chunk)
          (body offset (min objsize (offset + chunk)) st) = Some st'"
        by (simp add: Let_def)
      from IH [OF this] show ?thesis by blast
    next
      case False
      with unf show ?thesis by simp
    qed
  qed
  with step init show ?thesis by blast
qed

lemma push_objects_invariant:
  assumes "push_objects s3_client bucket_name object_list w = Some w'"
    and "\<And>key rng s. I s \<Longrightarrow> I (main_push_back s3_client bucket_name key rng s)" and "I w"
  shows "I w'"
  using assms(1,3)
proof (induction object_list arbitrary: w)
  case Nil
  then show ?case by simp
next
  case (Cons s3_object object_list)
  from Cons.prems(1) obtain w1 where
    w1: "push_object s3_client bucket_name s3_object w = Some w1"
    and rest: "push_objects s3_client bucket_name object_list w1 = Some w'"
    by (auto split: option.splits)
  have "I w1"
    using w1 unfolding push_object_def
    by (rule chunk_loop_invariant) (use assms(2) Cons.prems(2) in auto)
  from Cons.IH [OF rest this] show ?case .
qed

lemma list_loop_invariant:
  assumes res: "list_loop s3_client bucket_name token w = Some w'"
    and step: "\<And>s. I s \<Longrightarrow> I (yield s3_client bucket_name s)"
    and upd: "\<And>s f g h. I s \<Longrightarrow> I (s\<lparr>objects := f (objects s), cout := g (cout s), listed := h (listed s)\<rparr>)"
    and init: "I w"
  shows "I w'"
proof -
  have push: "I (main_push_back s3_client bucket_name key rng s)" if "I s" for key rng s
  proof -
    have "I (s\<lparr>objects := push_back key rng (objects s), cout := id (cout s), listed := id (listed s)\<rparr>)"
      by (rule upd [OF that])
    then show ?thesis unfolding main_push_back_def by (intro step) simp
  qed
  have say: "I (main_cout s3_client bucket_name line s)" if "I s" for line s
  proof -
    have "I (s\<lparr>objects := id (objects s), cout := (\<lambda>c. c @ [line]) (cout s), listed := id (listed s)\<rparr>)"
      by (rule upd [OF that])
    then show ?thesis unfolding main_cout_def by (intro step) simp
  qed
  have lst: "I (yield s3_client bucket_name (s\<lparr>listed := listed s @ [tok]\<rparr>))" if "I s" for tok s
  proof -
    have "I (s\<lparr>objects := id (objects s), cout := id (cout s), listed := (\<lambda>l. l @ [tok]) (listed s)\<rparr>)"
      by (rule upd [OF that])
    then show ?thesis by (intro step) simp
  qed
  have page: "I s'" if "list_page s3_client bucket_name oc s = Some s'" and "I s" for oc s s'
  proof (cases "IsSuccess oc")
    case True
    with that(1) have "push_objects s3_client bucket_name (Contents (Result oc)) s = Some s'"
      by (simp add: list_page_def)
    then show ?thesis by (rule push_objects_invariant) (use push that(2) in auto)
  next
    case False
    with that(1) say [OF that(2)] show ?thesis by (auto simp: list_page_def)
  qed
  have "s3_client = s3_client \<and> bucket_name = bucket_name \<longrightarrow> I w \<longrightarrow> I w'"
  proof (rule list_loop.raw_induct
      [where P = "\<lambda>s3 b token w w'. s3 = s3_client \<and> b = bucket_name \<longrightarrow> I w \<longrightarrow> I w'",
        OF _ res])
    fix loop s3 b token w w'
    assume IH: "\<And>s3 b token w w'. loop s3 b token w = Some w' \<Longrightarrow>
        s3 = s3_client \<and> b = bucket_name \<longrightarrow> I w \<longrightarrow> I w'"
      and unf: "(let list_objects_outcome = ListObjectsV2 s3 b token;
                 w1 = yield s3 b (w\<lparr>listed := listed w @ [token]\<rparr>)
             in case list_page s3 b list_objects_outcome w1 of
                  None \<Rightarrow> None
                | Some w2 \<Rightarrow>
                    if IsTruncated (Result list_objects_outcome)
                    then loop s3 b (Some (NextContinuationToken (Result list_objects_outcome))) w2
                    else Some w2) = Some w'"
    show "s3 = s3_client \<and> b = bucket_name \<longrightarrow> I w \<longrightarrow> I w'"
    proof (intro impI, elim conjE)
      assume eq: "s3 = s3_client" "b = bucket_name" and Iw: "I w"
      let ?oc = "ListObjectsV2 s3_client bucket_name token"
      let ?w1 = "yield s3_client bucket_name (w\<lparr>listed := listed w @ [token]\<rparr>)"
      from unf eq obtain w2 where w2: "list_page s3_client bucket_name ?oc ?w1 = Some w2"
        and rest: "(if IsTruncated (Result ?oc)
             then loop s3_client bucket_name (Some (NextContinuationToken (Result ?oc))) w2
             else Some w2) = Some w'"
        by (auto simp: Let_def split: option.splits)
      have I2: "I w2" by (rule page [OF w2 lst [OF Iw]])
      show "I w'"
      proof (cases "IsTruncated (Result ?oc)")
        case True
        with rest have "loop s3_client bucket_name (Some (NextContinuationToken (Result ?oc))) w2 = Some w'"
          by simp
        from IH [OF this] I2 show ?thesis by simp
      next
        case False
        with rest I2 show ?thesis by simp
      qed
    qed
  qed
  with init show ?thesis by simp
qed

lemma start_threads_length:
  "length (reader_threads (start_threads s3_client bucket_name n w)) = length (reader_threads w) + n"
  by (induction n arbitrary: w) (simp_all add: yield_frame)

lemma main_listing_threads:
  assumes "main_listing network schedule args = Some w3"
  shows "length (reader_threads w3) = ThreadCount"
proof -
  let ?s3 = "network (args ! 0)" and ?b = "args ! 1"
  let ?w1 = "(world_start schedule)\<lparr>cout := cout (world_start schedule) @
                 [''Reading S3 bucket: '' @ args ! 1 @ '' from '' @ args ! 0]\<rparr>"
  let ?w2 = "start_threads ?s3 ?b ThreadCount ?w1"
  from assms have res: "list_loop ?s3 ?b None ?w2 = Some w3"
    by (simp add: main_listing_def Let_def)
  have init: "length (reader_threads ?w2) = ThreadCount"
    by (simp add: start_threads_length world_start_def)
  show ?thesis
  proof (rule list_loop_invariant [OF res, where I = "\<lambda>s. length (reader_threads s) = ThreadCount"])
    show "length (reader_threads (yield ?s3 ?b s)) = ThreadCount"
      if "length (reader_threads s) = ThreadCount" for s
      using that by (simp only: yield_frame)
    show "length (reader_threads (s\<lparr>objects := f (objects s), cout := g (cout s),
        listed := h (listed s)\<rparr>)) = ThreadCount"
      if "length (reader_threads s) = ThreadCount" for s f g h
      using that by simp
    show "length (reader_threads ?w2) = ThreadCount" by (rule init)
  qed
qed

lemma step_thread_never_pushes:
  "length (keylist (objects (step_thread s3_client bucket_name j w)))
     \<le> length (keylist (objects w))"
proof (cases "j < length (reader_threads w)")
  case False
  then show ?thesis by (simp add: step_thread_def)
next
  case True
  obtain t' q' out' where st: "Retriever_step s3_client bucket_name (reader_threads w ! j)
      (objects w) (cout w) = (t', q', out')"
    by (cases "Retriever_step s3_client bucket_name (reader_threads w ! j) (objects w) (cout w)")
  from Retriever_step_never_pushes [OF st] True st show ?thesis
    by (auto simp: step_thread_def)
qed

lemma run_threads_never_pushes:
  "length (keylist (objects (run_threads s3_client bucket_name burst w)))
     \<le> length (keylist (objects w))"
proof (induction burst arbitrary: w)
  case Nil
  show ?case by (simp add: run_threads_def)
next
  case (Cons i burst)
  have "length (keylist (objects (run_threads s3_client bucket_name burst
            (step_thread s3_client bucket_name i w))))
      \<le> length (keylist (objects (step_thread s3_client bucket_name i w)))"
    by (rule Cons.IH)
  also have "\<dots> \<le> length (keylist (objects w))" by (rule step_thread_never_pushes)
  finally show ?case by (simp add: run_threads_def)
qed

lemma yield_never_pushes:
  "length (keylist (objects (yield s3_client bucket_name w))) \<le> length (keylist (objects w))"
proof (cases "sched w")
  case Nil
  then show ?thesis by (simp add: yield_def)
next
  case (Cons burst rest)
  have "length (keylist (objects (run_threads s3_client bucket_name burst (w\<lparr>sched := rest\<rparr>))))
      \<le> length (keylist (objects (w\<lparr>sched := rest\<rparr>)))"
    by (rule run_threads_never_pushes)
  with Cons show ?thesis by (simp add: yield_def)
qed

section \<open>The example bucket\<close>

lemma demo_start:
  "start_threads demo_client ''bucket'' ThreadCount
     ((world_start [])\<lparr>cout := [''Reading S3 bucket: bucket from 10.0.0.1'']\<rparr>)
   = \<lparr>objects = ObjectList_new, cout = [''Reading S3 bucket: bucket from 10.0.0.1''],
      reader_threads = replicate 32 reader_start, listed = [], sched = []\<rparr>"
  by (simp add: world_start_def ThreadCount_def eval_nat_numeral yield_def)

lemma demo_list_loop:
  "list_loop demo_client ''bucket'' None
     \<lparr>objects = ObjectList_new, cout = out, reader_threads = ts, listed = [], sched = []\<rparr>
   = Some \<lparr>objects = \<lparr>keylist = [(''a'', ''bytes=0-10''), (''b'', ''bytes=0-20'')],
                        end_marker = False\<rparr>,
           cout = out @ [''ListObjects error: InternalError try again''],
           reader_threads = ts, listed = [None, Some ''page2''], sched = []\<rparr>"
  by (simp add: yield_def ObjectList_new_def
      list_loop.simps demo_client_def first_page_def failed_page_def list_page_def
      push_object_def chunk_loop.simps ReadChunkSize_def main_push_back_def main_cout_def
      push_back_def ConstructByteRange_def to_string_def decimal.simps digit_def)

lemma demo_listing:
  "main_listing (\<lambda>endpoint. demo_client) [] [''10.0.0.1'', ''bucket'']
   = Some \<lparr>objects = \<lparr>keylist = [(''a'', ''bytes=0-10''), (''b'', ''bytes=0-20'')],
                        end_marker = False\<rparr>,
           cout = [''Reading S3 bucket: bucket from 10.0.0.1'',
                   ''ListObjects error: InternalError try again''],
           reader_threads = replicate 32 reader_start,
           listed = [None, Some ''page2''], sched = []\<rparr>"
  using demo_start by (simp add: main_listing_def demo_list_loop world_start_def)

lemma endless_list_loop: "list_loop endless_client bucket_name token w = None"
proof (cases "list_loop endless_client bucket_name token w")
  case None
  then show ?thesis .
next
  case (Some w')
  have "endless_client = endless_client \<longrightarrow> False"
  proof (rule list_loop.raw_induct
      [where P = "\<lambda>s3 b token w w'. s3 = endless_client \<longrightarrow> False", OF _ Some])
    fix loop s3 b token w w'
    assume IH: "\<And>s3 b token w w'. loop s3 b token w = Some w' \<Longrightarrow> s3 = endless_client \<longrightarrow> False"
      and unf: "(let list_objects_outcome = ListObjectsV2 s3 b token;
                 w1 = yield s3 b (w\<lparr>listed := listed w @ [token]\<rparr>)
             in case list_page s3 b list_objects_outcome w1 of
                  None \<Rightarrow> None
                | Some w2 \<Rightarrow>
                    if IsTruncated (Result list_objects_outcome)
                    then loop s3 b (Some (NextContinuationToken (Result list_objects_outcome))) w2
                    else Some w2) = Some w'"
    show "s3 = endless_client \<longrightarrow> False"
    proof
      assume "s3 = endless_client"
      with unf obtain tok' w2 where "loop endless_client b tok' w2 = Some w'"
        by (auto simp: endless_client_def Let_def split: option.splits)
      from IH [OF this] show False by simp
    qed
  qed
  then show ?thesis by simp
qed

lemma endless_listing: "main_listing (\<lambda>endpoint. endless_client) schedule args = None"
  by (simp add: main_listing_def Let_def endless_list_loop)


section \<open>The process as a whole\<close>

text \<open>
  Claim C8. CLI exit behaviour: started with fewer than the two positional arguments,
  the process prints the usage message and exits with status \<open>1\<close>. Started with both,
  and whatever the service answers to the listing and retrieval calls and however the
  threads interleave: if the listing loop never ends the process never exits, and once
  the listing loop has ended the process sets the terminal flag, joins all
  \<open>ThreadCount\<close> readers, each of which has returned, and exits with status \<open>0\<close>.
\<close>

theorem main_exit_status:
  "(length args < 2 \<longrightarrow>
      main network schedule argv0 args
        = Some (1, (world_start schedule)\<lparr>cout := usage argv0\<rparr>))
   \<and> (2 \<le> length args \<longrightarrow>
        (main_listing network schedule args = None \<longrightarrow>
           main network schedule argv0 args = None)
        \<and> (\<forall>w3. main_listing network schedule args = Some w3 \<longrightarrow>
              (\<exists>w4. main network schedule argv0 args = Some (0, w4)
                 \<and> length (reader_threads w4) = ThreadCount
                 \<and> (\<forall>t \<in> set (reader_threads w4). pc t = Exited)
                 \<and> end_marker (objects w4))))"
proof (intro conjI impI allI)
  assume "length args < 2"
  then show "main network schedule argv0 args
        = Some (1, (world_start schedule)\<lparr>cout := usage argv0\<rparr>)"
    by (simp add: main_def)
next
  assume "2 \<le> length args" and "main_listing network schedule args = None"
  then show "main network schedule argv0 args = None"
    by (simp add: main_def)
next
  fix w3
  assume a: "2 \<le> length args" and l: "main_listing network schedule args = Some w3"
  from main_joins [OF l] obtain w4 where w4:
    "join_all (network (args ! 0)) (args ! 1) [0 ..< length (reader_threads w3)]
        (main_SetEnd (network (args ! 0)) (args ! 1) w3) = Some w4"
    "\<forall>t \<in> set (reader_threads w4). pc t = Exited"
    "end_marker (objects w4)"
    "length (reader_threads w4) = length (reader_threads w3)"
    by blast
  have "main network schedule argv0 args = Some (0, w4)"
    using a l w4(1) by (simp add: main_def)
  with w4 main_listing_threads [OF l]
  show "\<exists>w4. main network schedule argv0 args = Some (0, w4)
                 \<and> length (reader_threads w4) = ThreadCount
                 \<and> (\<forall>t \<in> set (reader_threads w4). pc t = Exited)
                 \<and> end_marker (objects w4)"
    by simp
qed

theorem main_exit_status_witness:
  "length [''10.0.0.1''] < 2
   \<and> main (\<lambda>endpoint. demo_client) [] ''prog'' [''10.0.0.1'']
       = Some (1, (world_start [])\<lparr>cout :=
           ['''', ''To run this example, supply the name of a bucket to list!'',
            ''Ex: prog <endpoint> <bucket-name>'', '''']\<rparr>)
   \<and> 2 \<le> length [''10.0.0.1'', ''bucket'']
   \<and> (\<exists>w3. main_listing (\<lambda>endpoint. demo_client) [] [''10.0.0.1'', ''bucket''] = Some w3
          \<and> cout w3 = [''Reading S3 bucket: bucket from 10.0.0.1'',
                        ''ListObjects error: InternalError try again''])
   \<and> (\<exists>w4. main (\<lambda>endpoint. demo_client) [] ''prog'' [''10.0.0.1'', ''bucket''] = Some (0, w4)
          \<and> length (reader_threads w4) = ThreadCount
          \<and> (\<forall>t \<in> set (reader_threads w4). pc t = Exited)
          \<and> end_marker (objects w4))
   \<and> main_listing (\<lambda>endpoint. endless_client) [] [''10.0.0.1'', ''bucket''] = None
   \<and> main (\<lambda>endpoint. endless_client) [] ''prog'' [''10.0.0.1'', ''bucket''] = None"
proof -
  have h1: "length [''10.0.0.1''] < 2" by simp
  have h2: "2 \<le> length [''10.0.0.1'', ''bucket'']" by simp
  note l = demo_listing
  from main_exit_status [of "[''10.0.0.1'']" "\<lambda>endpoint. demo_client" "[]" "''prog''"] h1
  have a: "main (\<lambda>endpoint. demo_client) [] ''prog'' [''10.0.0.1'']
       = Some (1, (world_start [])\<lparr>cout :=
           ['''', ''To run this example, supply the name of a bucket to list!'',
            ''Ex: prog <endpoint> <bucket-name>'', '''']\<rparr>)"
    by (simp add: usage_def)
  from main_exit_status [of "[''10.0.0.1'', ''bucket'']" "\<lambda>endpoint. demo_client" "[]" "''prog''"]
    h2 l
  have b: "\<exists>w4. main (\<lambda>endpoint. demo_client) [] ''prog'' [''10.0.0.1'', ''bucket''] = Some (0, w4)
          \<and> length (reader_threads w4) = ThreadCount
          \<and> (\<forall>t \<in> set (reader_threads w4). pc t = Exited)
          \<and> end_marker (objects w4)"
    by blast
  note e = endless_listing [of "[]" "[''10.0.0.1'', ''bucket'']"]
  from main_exit_status [of "[''10.0.0.1'', ''bucket'']" "\<lambda>endpoint. endless_client" "[]" "''prog''"]
    h2 e
  have c: "main (\<lambda>endpoint. endless_client) [] ''prog'' [''10.0.0.1'', ''bucket''] = None"
    by blast
  from h1 a h2 l b e c show ?thesis by simp
qed

text \<open>
  Claim C2, as the code has it. When the fetch of a listing page fails, the enumerator
  writes the one line reporting the error and pushes nothing for that page (the queue
  is no longer after the page than before); it sets the continuation token of the
  request from the result of the failed outcome and fetches another page exactly when
  that result says the listing is truncated, otherwise the listing loop ends there.
  Whenever the listing loop ends, \<open>SetEnd\<close> is still called, every reader returns and
  the process exits with status \<open>0\<close>.
\<close>

theorem listing_failure_recovery:
  assumes "\<not> IsSuccess (ListObjectsV2 s3_client bucket_name token)"
  shows "list_page s3_client bucket_name (ListObjectsV2 s3_client bucket_name token) w =
      Some (yield s3_client bucket_name
        (w\<lparr>cout := cout w @
           [''ListObjects error: ''
              @ ExceptionName (Error (ListObjectsV2 s3_client bucket_name token)) @ '' ''
              @ Message (Error (ListObjectsV2 s3_client bucket_name token))]\<rparr>))
    \<and> (\<forall>w'. list_page s3_client bucket_name (ListObjectsV2 s3_client bucket_name token) w = Some w'
          \<longrightarrow> length (keylist (objects w')) \<le> length (keylist (objects w)))
    \<and> list_loop s3_client bucket_name token w =
        (if IsTruncated (Result (ListObjectsV2 s3_client bucket_name token))
         then list_loop s3_client bucket_name
                (Some (NextContinuationToken (Result (ListObjectsV2 s3_client bucket_name token))))
                (main_cout s3_client bucket_name
                   (''ListObjects error: ''
                      @ ExceptionName (Error (ListObjectsV2 s3_client bucket_name token)) @ '' ''
                      @ Message (Error (ListObjectsV2 s3_client bucket_name token)))
                   (yield s3_client bucket_name (w\<lparr>listed := listed w @ [token]\<rparr>)))
         else Some (main_cout s3_client bucket_name
                   (''ListObjects error: ''
                      @ ExceptionName (Error (ListObjectsV2 s3_client bucket_name token)) @ '' ''
                      @ Message (Error (ListObjectsV2 s3_client bucket_name token)))
                   (yield s3_client bucket_name (w\<lparr>listed := listed w @ [token]\<rparr>))))
    \<and> (\<forall>network schedule argv0 args w3.
          2 \<le> length args \<and> main_listing network schedule args = Some w3 \<longrightarrow>
          (\<exists>w4. main network schedule argv0 args = Some (0, w4)
             \<and> end_marker (objects w4)
             \<and> length (reader_threads w4) = ThreadCount
             \<and> (\<forall>t \<in> set (reader_threads w4). pc t = Exited)))"
proof -
  let ?oc = "ListObjectsV2 s3_client bucket_name token"
  let ?line = "''ListObjects error: '' @ ExceptionName (Error ?oc) @ '' '' @ Message (Error ?oc)"
  have a: "list_page s3_client bucket_name ?oc w =
      Some (yield s3_client bucket_name (w\<lparr>cout := cout w @ [?line]\<rparr>))"
    using assms by (simp add: list_page_def main_cout_def)
  have "length (keylist (objects (yield s3_client bucket_name (w\<lparr>cout := cout w @ [?line]\<rparr>))))
      \<le> length (keylist (objects (w\<lparr>cout := cout w @ [?line]\<rparr>)))"
    by (rule yield_never_pushes)
  then have b: "\<forall>w'. list_page s3_client bucket_name ?oc w = Some w'
          \<longrightarrow> length (keylist (objects w')) \<le> length (keylist (objects w))"
    unfolding a by simp
  have c: "list_loop s3_client bucket_name token w =
        (if IsTruncated (Result ?oc)
         then list_loop s3_client bucket_name (Some (NextContinuationToken (Result ?oc)))
                (main_cout s3_client bucket_name ?line
                   (yield s3_client bucket_name (w\<lparr>listed := listed w @ [token]\<rparr>)))
         else Some (main_cout s3_client bucket_name ?line
                   (yield s3_client bucket_name (w\<lparr>listed := listed w @ [token]\<rparr>))))"
    using assms by (subst list_loop.simps) (simp add: list_page_def Let_def)
  have d: "\<exists>w4. main network schedule argv0 args = Some (0, w4)
             \<and> end_marker (objects w4)
             \<and> length (reader_threads w4) = ThreadCount
             \<and> (\<forall>t \<in> set (reader_threads w4). pc t = Exited)"
    if "2 \<le> length args \<and> main_listing network schedule args = Some w3"
    for network schedule argv0 args w3
  proof -
    from that have l: "main_listing network schedule args = Some w3" and n: "2 \<le> length args"
      by simp_all
    from main_joins [OF l] obtain w4 where w4:
      "join_all (network (args ! 0)) (args ! 1) [0 ..< length (reader_threads w3)]
          (main_SetEnd (network (args ! 0)) (args ! 1) w3) = Some w4"
      "\<forall>t \<in> set (reader_threads w4). pc t = Exited"
      "end_marker (objects w4)"
      "length (reader_threads w4) = length (reader_threads w3)"
      by blast
    have "main network schedule argv0 args = Some (0, w4)"
      using n l w4(1) by (simp add: main_def)
    with w4 main_listing_threads [OF l] show ?thesis by simp
  qed
  from a b c d show ?thesis by blast
qed

theorem listing_failure_recovery_witness:
  "\<not> IsSuccess (ListObjectsV2 demo_client ''bucket'' (Some ''page2''))
   \<and> list_page demo_client ''bucket'' (ListObjectsV2 demo_client ''bucket'' (Some ''page2''))
        (world_start [])
       = Some ((world_start [])\<lparr>cout := [''ListObjects error: InternalError try again'']\<rparr>)
   \<and> 2 \<le> length [''10.0.0.1'', ''bucket'']
   \<and> (\<exists>w3. main_listing (\<lambda>endpoint. demo_client) [] [''10.0.0.1'', ''bucket''] = Some w3)
   \<and> (\<exists>w4. main (\<lambda>endpoint. demo_client) [] ''prog'' [''10.0.0.1'', ''bucket''] = Some (0, w4)
          \<and> end_marker (objects w4)
          \<and> length (reader_threads w4) = ThreadCount
          \<and> (\<forall>t \<in> set (reader_threads w4). pc t = Exited))"
proof -
  have h: "\<not> IsSuccess (ListObjectsV2 demo_client ''bucket'' (Some ''page2''))"
    by (simp add: demo_client_def failed_page_def)
  have h2: "2 \<le> length [''10.0.0.1'', ''bucket'']" by simp
  note l = demo_listing
  note t = listing_failure_recovery [OF h, of "world_start []"]
  from t have a: "list_page demo_client ''bucket''
        (ListObjectsV2 demo_client ''bucket'' (Some ''page2'')) (world_start [])
       = Some ((world_start [])\<lparr>cout := [''ListObjects error: InternalError try again'']\<rparr>)"
    by (simp add: demo_client_def failed_page_def yield_def world_start_def)
  from t have "\<forall>network schedule argv0 args w3.
          2 \<le> length args \<and> main_listing network schedule args = Some w3 \<longrightarrow>
          (\<exists>w4. main network schedule argv0 args = Some (0, w4)
             \<and> end_marker (objects w4)
             \<and> length (reader_threads w4) = ThreadCount
             \<and> (\<forall>t \<in> set (reader_threads w4). pc t = Exited))"
    by blast
  with h2 l
  have b: "\<exists>w4. main (\<lambda>endpoint. demo_client) [] ''prog'' [''10.0.0.1'', ''bucket''] = Some (0, w4)
          \<and> end_marker (objects w4)
          \<and> length (reader_threads w4) = ThreadCount
          \<and> (\<forall>t \<in> set (reader_threads w4). pc t = Exited)"
    by blast
  from h a h2 l b show ?thesis by simp
qed

text \<open>
  Claim C2 as it was stated says that after a failed page the enumeration goes on with
  the next continuation token instead of stopping. On the example bucket the second
  page fails, with the unfilled result of a failed outcome; a request with the token of
  that result would have been answered with a further page, but the loop ends after the
  two requests it has made and the object of that page is never queued.
\<close>

theorem listing_failure_recovery_counterexample:
  "\<not> IsSuccess (ListObjectsV2 demo_client ''bucket'' (Some ''page2''))
   \<and> IsSuccess (ListObjectsV2 demo_client ''bucket'' (Some ''''))
   \<and> map_option listed (list_loop demo_client ''bucket'' None (world_start []))
       = Some [None, Some ''page2'']
   \<and> map_option objects (list_loop demo_client ''bucket'' None (world_start []))
       = Some \<lparr>keylist = [(''a'', ''bytes=0-10''), (''b'', ''bytes=0-20'')], end_marker = False\<rparr>"
  by (simp add: world_start_def demo_list_loop)
    (simp add: demo_client_def failed_page_def third_page_def)

end
